theory Spec2Isabelle
  imports Main "HOL-Library.AList" "HOL-Library.Multiset"
begin

section \<open>Hierarchy addresses (FileList.ts)\<close>

text \<open>
  Selection.ts imports \<open>ListItem\<close>, its six subclasses, \<open>ListLevel\<close> and \<open>sortItems\<close>
  from FileList.ts, which is not among the sources. The address type is therefore
  modelled from the specification and from the way Selection.ts uses it.
\<close>

text \<open>Modelled from the spec: the enumeration \<open>ListLevel\<close> of FileList.ts, in the
  order the specification lists it; the lower ordinal is closer to the root.\<close>

datatype ListLevel = ROOT | FILE | TRACK | SEGMENT | WAYPOINTS | WAYPOINT

text \<open>The numeric value of a level, by which \<open>hasAnyParent\<close> and \<open>hasAnyChildren\<close>
  compare levels with \<open><=\<close> and \<open>>=\<close>.\<close>

fun levelNum :: "ListLevel \<Rightarrow> nat" where
  "levelNum ROOT = 0"
| "levelNum FILE = 1"
| "levelNum TRACK = 2"
| "levelNum SEGMENT = 3"
| "levelNum WAYPOINTS = 4"
| "levelNum WAYPOINT = 5"

text \<open>An identifier is a \<open>string | number\<close>: file identifiers are strings, track,
  segment and waypoint indices are numbers (array positions), and the waypoint group of
  a file is reached through the string \<open>waypoints\<close>.\<close>

datatype ident = IdStr string | IdNum nat

text \<open>Modelled from the spec: the class \<open>ListItem\<close> of FileList.ts and its concrete
  variants, as the tagged union the specification describes, each variant carrying the
  identifier fields valid at its level. The constructor arguments are those
  Selection.ts passes: \<open>new ListFileItem(fileId)\<close>, \<open>new ListTrackItem(fileId, trackId)\<close>,
  \<open>new ListTrackSegmentItem(fileId, trackIndex, segmentId)\<close>,
  \<open>new ListWaypointItem(fileId, waypointId)\<close>.\<close>

datatype ListItem =
    ListRootItem
  | ListFileItem string
  | ListTrackItem string nat
  | ListTrackSegmentItem string nat nat
  | ListWaypointsItem string
  | ListWaypointItem string nat

text \<open>Modelled from the spec: the field \<open>level\<close> of a \<open>ListItem\<close>, fixed by its
  variant.\<close>

fun level :: "ListItem \<Rightarrow> ListLevel" where
  "level ListRootItem = ROOT"
| "level (ListFileItem f) = FILE"
| "level (ListTrackItem f t) = TRACK"
| "level (ListTrackSegmentItem f t s) = SEGMENT"
| "level (ListWaypointsItem f) = WAYPOINTS"
| "level (ListWaypointItem f w) = WAYPOINT"

text \<open>Modelled from the spec: \<open>getFileId()\<close> of FileList.ts, the file-level identifier
  component, undefined for the root item.\<close>

fun getFileId :: "ListItem \<Rightarrow> string option" where
  "getFileId ListRootItem = None"
| "getFileId (ListFileItem f) = Some f"
| "getFileId (ListTrackItem f t) = Some f"
| "getFileId (ListTrackSegmentItem f t s) = Some f"
| "getFileId (ListWaypointsItem f) = Some f"
| "getFileId (ListWaypointItem f w) = Some f"

text \<open>Modelled from the spec: \<open>getIdAtLevel(level)\<close> of FileList.ts. A tree node whose
  own item has level \<open>L\<close> calls \<open>item.getIdAtLevel(L)\<close> to obtain the key of the child
  that leads towards \<open>item\<close>; so the identifier returned for level \<open>L\<close> is the component
  that extends an address of level \<open>L\<close>, and it is undefined when \<open>L\<close> is not the level
  of a strict ancestor of the item. The waypoint group hangs below the file under the
  key \<open>waypoints\<close>, and single waypoints hang below the group.\<close>

fun getIdAtLevel :: "ListItem \<Rightarrow> ListLevel \<Rightarrow> ident option" where
  "getIdAtLevel (ListFileItem f) ROOT = Some (IdStr f)"
| "getIdAtLevel (ListTrackItem f t) ROOT = Some (IdStr f)"
| "getIdAtLevel (ListTrackItem f t) FILE = Some (IdNum t)"
| "getIdAtLevel (ListTrackSegmentItem f t s) ROOT = Some (IdStr f)"
| "getIdAtLevel (ListTrackSegmentItem f t s) FILE = Some (IdNum t)"
| "getIdAtLevel (ListTrackSegmentItem f t s) TRACK = Some (IdNum s)"
| "getIdAtLevel (ListWaypointsItem f) ROOT = Some (IdStr f)"
| "getIdAtLevel (ListWaypointsItem f) FILE = Some (IdStr ''waypoints'')"
| "getIdAtLevel (ListWaypointItem f w) ROOT = Some (IdStr f)"
| "getIdAtLevel (ListWaypointItem f w) FILE = Some (IdStr ''waypoints'')"
| "getIdAtLevel (ListWaypointItem f w) WAYPOINTS = Some (IdNum w)"
| "getIdAtLevel _ _ = None"

text \<open>Modelled from the spec: \<open>extend(id)\<close> of FileList.ts, the address one step
  deeper with \<open>id\<close> appended; the components of the receiver are kept. Segments and
  single waypoints are the deepest addresses and have nothing below them; an identifier
  of the wrong kind for the level (none is ever produced by \<open>getIdAtLevel\<close> at that
  level) leaves the address as it is.\<close>

fun extend :: "ListItem \<Rightarrow> ident \<Rightarrow> ListItem" where
  "extend ListRootItem (IdStr f) = ListFileItem f"
| "extend (ListFileItem f) (IdNum t) = ListTrackItem f t"
| "extend (ListFileItem f) (IdStr s) =
     (if s = ''waypoints'' then ListWaypointsItem f else ListFileItem f)"
| "extend (ListTrackItem f t) (IdNum s) = ListTrackSegmentItem f t s"
| "extend (ListWaypointsItem f) (IdNum w) = ListWaypointItem f w"
| "extend it _ = it"

section \<open>Objects used as dictionaries\<close>

text \<open>
  The field \<open>children\<close> is a JavaScript object, created by the literal \<open>{}\<close> and used as
  a dictionary. It is modelled as the association list of its own properties, from
  property names to values, in the order in which the properties were created; property
  names are unique. Indexing with a number uses the decimal rendering of the number as
  the property name.

  The prototype of the object is \<open>Object.prototype\<close>, from which it inherits the method
  \<open>hasOwnProperty\<close> and the accessor \<open>__proto__\<close>; none of the inherited properties is
  enumerable. Two property names therefore do not behave like the others:
  \<^item> \<open>obj.hasOwnProperty(id)\<close> looks the method up on the object. When the object has an
    own property named \<open>hasOwnProperty\<close>, the value found is a tree node and not a
    function, and the call throws a \<open>TypeError\<close>.
  \<^item> \<open>obj[id] = v\<close> with the name \<open>__proto__\<close>, on an object that has no own property of
    that name, runs the inherited setter: it replaces the prototype of the object by
    \<open>v\<close> and creates no property. A following read of \<open>obj[id]\<close> gives \<open>v\<close>.

  An association list does not show a replaced prototype. A call in which a prototype is
  replaced has the outcome \<open>PrototypeReplaced\<close>; the tree that comes with this outcome
  shows the fields and own properties as the call leaves them. \<open>PrototypeReplaced\<close> is
  no exception of the program: the call goes on after the assignment. After it the
  object inherits the fields of the node that became its prototype, and \<open>for ... in\<close>
  enumerates them after the own properties; what \<open>clear\<close>, \<open>getSelected\<close>, \<open>forEach\<close>
  and the loop of \<open>hasAnyChildren\<close> do then is not described by the functions below,
  which enumerate own properties. The calls of \<open>hasOwnProperty\<close> and the reads and
  writes under other names are as before. The trees from which the theorems start are
  trees in which no prototype has been replaced.
\<close>

datatype error = TypeError | PrototypeReplaced

definition digit_char :: "nat \<Rightarrow> char" where
  "digit_char d = ''0123456789'' ! d"

function string_of_nat :: "nat \<Rightarrow> string" where
  "string_of_nat n =
     (if n < 10 then [digit_char n]
      else string_of_nat (n div 10) @ [digit_char (n mod 10)])"
  by pat_completeness auto
termination
  by (relation "measure id") auto

declare string_of_nat.simps [simp del]

fun keyOf :: "ident \<Rightarrow> string" where
  "keyOf (IdStr s) = s"
| "keyOf (IdNum n) = string_of_nat n"

definition hasOwnProperty :: "(string \<times> 'a) list \<Rightarrow> ident \<Rightarrow> error + bool" where
  "hasOwnProperty obj i =
     (if map_of obj ''hasOwnProperty'' \<noteq> None then Inl TypeError
      else Inr (map_of obj (keyOf i) \<noteq> None))"

text \<open>
  \<open>for (let key in obj)\<close> enumerates the property names that are array indices
  (canonical decimal numerals below \<open>2^32 - 1\<close>) first, in ascending numeric order, and
  then the other names in the order of their creation.
\<close>

definition digit_val :: "char \<Rightarrow> nat option" where
  "digit_val c =
     map_of [(CHR ''0'', 0), (CHR ''1'', 1), (CHR ''2'', 2), (CHR ''3'', 3), (CHR ''4'', 4),
             (CHR ''5'', 5), (CHR ''6'', 6), (CHR ''7'', 7), (CHR ''8'', 8), (CHR ''9'', 9)] c"

definition parse_nat :: "string \<Rightarrow> nat option" where
  "parse_nat s =
     (if s = [] then None
      else fold (\<lambda>c acc. case acc of None \<Rightarrow> None
                   | Some a \<Rightarrow> (case digit_val c of None \<Rightarrow> None
                                | Some d \<Rightarrow> Some (10 * a + d))) s (Some 0))"

definition arrayIndex :: "string \<Rightarrow> nat option" where
  "arrayIndex s =
     (case parse_nat s of
        None \<Rightarrow> None
      | Some n \<Rightarrow> if string_of_nat n = s \<and> int n < 4294967295 then Some n else None)"

definition indexRank :: "string \<Rightarrow> nat" where
  "indexRank k = (case arrayIndex k of None \<Rightarrow> 0 | Some n \<Rightarrow> n)"

definition forIn :: "(string \<times> 'a) list \<Rightarrow> (string \<times> 'a) list" where
  "forIn obj =
     sort_key (\<lambda>(k, v). indexRank k) (filter (\<lambda>(k, v). arrayIndex k \<noteq> None) obj)
     @ filter (\<lambda>(k, v). arrayIndex k = None) obj"

section \<open>The selection tree (class SelectionTreeType)\<close>

text \<open>
  The fields of the class, in the order of their declaration; the field \<open>size\<close> is
  called \<open>size_field\<close> here. \<open>size\<close> is a JavaScript number holding an integer.
\<close>

datatype SelectionTreeType =
  SelectionTreeType (item: ListItem) (selected: bool)
    (children: "(string \<times> SelectionTreeType) list") (size_field: int)

text \<open>The constructor: not selected, no children, size 0.\<close>

definition newSelectionTreeType :: "ListItem \<Rightarrow> SelectionTreeType" where
  "newSelectionTreeType it = SelectionTreeType it False [] 0"

text \<open>\<open>clear()\<close>: every child is cleared in place; the keys stay. The method calls
  neither \<open>hasOwnProperty\<close> nor assigns a property.\<close>

fun clear :: "SelectionTreeType \<Rightarrow> SelectionTreeType" where
  "clear (SelectionTreeType titem sel cs sz) =
     SelectionTreeType titem False (map (\<lambda>(k, c). (k, clear c)) cs) 0"

text \<open>
  The methods that call \<open>hasOwnProperty\<close> or assign a property are written in
  state-passing style: each takes the receiver and returns its outcome together with the
  receiver as the call leaves it, also when the call throws; a call on a child stores
  the child as that call leaves it back under its key.

  \<open>_setOrToggle(item, value?)\<close>: the optional \<open>value\<close> is \<open>None\<close> for a toggle. The outcome
  is \<open>None\<close> when the call returns, \<open>Some TypeError\<close> when it throws, and
  \<open>Some PrototypeReplaced\<close> when it returns after having replaced a prototype. When
  \<open>hasOwnProperty\<close> answers false the child is created: under the name \<open>__proto__\<close> the
  new node becomes the prototype of \<open>children\<close> and no entry is added; under any other
  name the entry is added at the end of the dictionary. \<open>child\<close> is the value of
  \<open>this.children[id]\<close> at line 40. When the call on the child throws, line 42 is not
  reached.
\<close>

function setOrToggle ::
  "ListItem \<Rightarrow> bool option \<Rightarrow> SelectionTreeType \<Rightarrow> error option \<times> SelectionTreeType" where
  "setOrToggle it val (SelectionTreeType titem sel cs sz) =
     (if level it = level titem then
        (let newSelected = (case val of None \<Rightarrow> \<not> sel | Some v \<Rightarrow> v) in
         if sel \<noteq> newSelected
         then (None, SelectionTreeType titem newSelected cs
                       (sz + (if newSelected then 1 else - 1)))
         else (None, SelectionTreeType titem sel cs sz))
      else
        (case getIdAtLevel it (level titem) of
           None \<Rightarrow> (None, SelectionTreeType titem sel cs sz)
         | Some i \<Rightarrow>
            (case hasOwnProperty cs i of
               Inl e \<Rightarrow> (Some e, SelectionTreeType titem sel cs sz)
             | Inr present \<Rightarrow>
                (let replaced = (\<not> present \<and> keyOf i = ''__proto__'');
                     child = (case map_of cs (keyOf i) of
                                None \<Rightarrow> newSelectionTreeType (extend titem i)
                              | Some c \<Rightarrow> c)
                 in (case setOrToggle it val child of
                      (r, child') \<Rightarrow>
                        (let cs' = (if replaced then cs
                                    else AList.update (keyOf i) child' cs)
                         in (if r = Some TypeError
                             then (r, SelectionTreeType titem sel cs' (sz - size_field child))
                             else ((if replaced then Some PrototypeReplaced else r),
                                   SelectionTreeType titem sel cs'
                                     (sz - size_field child + size_field child')))))))))"
  by pat_completeness auto
termination
proof (relation "measures [\<lambda>(it, val, t). size t,
                           \<lambda>(it, val, t). 5 - levelNum (level (item t))]", goal_cases)
  case 1
  show ?case by simp
next
  case (2 it val titem sel cs sz i present replaced child)
  then have gi: "getIdAtLevel it (level titem) = Some i"
    and ch: "child = (case map_of cs (keyOf i) of
                        None \<Rightarrow> newSelectionTreeType (extend titem i) | Some c \<Rightarrow> c)"
    by simp_all
  have mem: "size c < Suc (size_list (size_prod (\<lambda>x. 0) size) ys)"
    if "(k, c) \<in> set ys" for k c and ys :: "(string \<times> SelectionTreeType) list"
    using that by (induction ys) auto
  have deeper: "levelNum (level titem) < levelNum (level (extend titem i))"
    using gi by (cases it; cases titem; cases i) (auto split: if_splits)
  show ?case
  proof (cases "map_of cs (keyOf i)")
    case None
    have "levelNum (level (extend titem i)) \<le> 5"
      by (cases "level (extend titem i)") auto
    with None ch deeper show ?thesis
      by (cases cs) (auto simp: newSelectionTreeType_def)
  next
    case (Some c)
    then have "(keyOf i, c) \<in> set cs" by (rule map_of_SomeD)
    from mem [OF this] Some ch show ?thesis by simp
  qed
qed

definition set_item ::
  "ListItem \<Rightarrow> bool \<Rightarrow> SelectionTreeType \<Rightarrow> error option \<times> SelectionTreeType" where
  "set_item it v t = setOrToggle it (Some v) t"

definition toggle :: "ListItem \<Rightarrow> SelectionTreeType \<Rightarrow> error option \<times> SelectionTreeType" where
  "toggle it t = setOrToggle it None t"

text \<open>
  \<open>has(item)\<close>: the answer is \<open>Inr\<close> of the boolean returned, or \<open>Inl TypeError\<close> when
  the call of \<open>hasOwnProperty\<close> throws. \<open>present\<close> is the answer of \<open>hasOwnProperty\<close>;
  the child is there exactly when it is true.
\<close>

function has :: "SelectionTreeType \<Rightarrow> ListItem \<Rightarrow> (error + bool) \<times> SelectionTreeType" where
  "has (SelectionTreeType titem sel cs sz) it =
     (if level it = level titem then (Inr sel, SelectionTreeType titem sel cs sz)
      else
        (case getIdAtLevel it (level titem) of
           None \<Rightarrow> (Inr False, SelectionTreeType titem sel cs sz)
         | Some i \<Rightarrow>
            (case hasOwnProperty cs i of
               Inl e \<Rightarrow> (Inl e, SelectionTreeType titem sel cs sz)
             | Inr present \<Rightarrow>
                (case map_of cs (keyOf i) of
                   None \<Rightarrow> (Inr False, SelectionTreeType titem sel cs sz)
                 | Some c \<Rightarrow>
                    (case has c it of
                       (r, c') \<Rightarrow>
                         (r, SelectionTreeType titem sel (AList.update (keyOf i) c' cs) sz))))))"
  by pat_completeness auto
termination
proof (relation "measure (\<lambda>(t, it). size t)", goal_cases)
  case 1
  show ?case by simp
next
  case (2 titem sel cs sz it i present c)
  then have "(keyOf i, c) \<in> set cs" by (auto dest: map_of_SomeD)
  then have "size c < Suc (size_list (size_prod (\<lambda>x. 0) size) cs)"
    by (induction cs) auto
  then show ?case by simp
qed

text \<open>\<open>hasAnyParent(item, self = true)\<close>; the levels are compared as numbers.\<close>

function hasAnyParent ::
  "SelectionTreeType \<Rightarrow> ListItem \<Rightarrow> bool \<Rightarrow> (error + bool) \<times> SelectionTreeType" where
  "hasAnyParent (SelectionTreeType titem sel cs sz) it self =
     (if sel \<and> levelNum (level titem) \<le> levelNum (level it)
          \<and> (self \<or> levelNum (level titem) < levelNum (level it))
      then (Inr sel, SelectionTreeType titem sel cs sz)
      else
        (case getIdAtLevel it (level titem) of
           None \<Rightarrow> (Inr False, SelectionTreeType titem sel cs sz)
         | Some i \<Rightarrow>
            (case hasOwnProperty cs i of
               Inl e \<Rightarrow> (Inl e, SelectionTreeType titem sel cs sz)
             | Inr present \<Rightarrow>
                (case map_of cs (keyOf i) of
                   None \<Rightarrow> (Inr False, SelectionTreeType titem sel cs sz)
                 | Some c \<Rightarrow>
                    (case hasAnyParent c it self of
                       (r, c') \<Rightarrow>
                         (r, SelectionTreeType titem sel (AList.update (keyOf i) c' cs) sz))))))"
  by pat_completeness auto
termination
proof (relation "measure (\<lambda>(t, it, self). size t)", goal_cases)
  case 1
  show ?case by simp
next
  case (2 titem sel cs sz it self i present c)
  then have "(keyOf i, c) \<in> set cs" by (auto dest: map_of_SomeD)
  then have "size c < Suc (size_list (size_prod (\<lambda>x. 0) size) cs)"
    by (induction cs) auto
  then show ?case by simp
qed

text \<open>
  \<open>hasAnyChildren(item, self = true, ignoreIds?)\<close>. \<open>ignoreIds.indexOf(x) === -1\<close> holds
  when no element of \<open>ignoreIds\<close> is strictly equal to \<open>x\<close>; in the loop \<open>x\<close> is a
  property name, hence a string. The loop over the children goes on as long as the
  children answer false; its state is the answer so far and the dictionary.
\<close>

definition notIgnored :: "ident list option \<Rightarrow> ident \<Rightarrow> bool" where
  "notIgnored ignoreIds i = (case ignoreIds of None \<Rightarrow> True | Some l \<Rightarrow> i \<notin> set l)"

function hasAnyChildren ::
  "SelectionTreeType \<Rightarrow> ListItem \<Rightarrow> bool \<Rightarrow> ident list option
   \<Rightarrow> (error + bool) \<times> SelectionTreeType" where
  "hasAnyChildren (SelectionTreeType titem sel cs sz) it self ignoreIds =
     (if sel \<and> levelNum (level titem) \<ge> levelNum (level it)
          \<and> (self \<or> levelNum (level titem) > levelNum (level it))
      then (Inr sel, SelectionTreeType titem sel cs sz)
      else
        (case getIdAtLevel it (level titem) of
           Some i \<Rightarrow>
            (if notIgnored ignoreIds i then
               (case hasOwnProperty cs i of
                  Inl e \<Rightarrow> (Inl e, SelectionTreeType titem sel cs sz)
                | Inr present \<Rightarrow>
                   (case map_of cs (keyOf i) of
                      None \<Rightarrow> (Inr False, SelectionTreeType titem sel cs sz)
                    | Some c \<Rightarrow>
                       (case hasAnyChildren c it self ignoreIds of
                          (r, c') \<Rightarrow>
                            (r, SelectionTreeType titem sel
                                  (AList.update (keyOf i) c' cs) sz))))
             else (Inr False, SelectionTreeType titem sel cs sz))
         | None \<Rightarrow>
            (case fold (\<lambda>(key, c) (res, cs').
                          if res \<noteq> Inr False then (res, cs')
                          else if notIgnored ignoreIds (IdStr key) then
                            (case hasAnyChildren c it self ignoreIds of
                               (r, c') \<Rightarrow> (r, AList.update key c' cs'))
                          else (res, cs'))
                       (forIn cs) (Inr False, cs) of
               (res, cs') \<Rightarrow> (res, SelectionTreeType titem sel cs' sz))))"
  by pat_completeness auto
termination
proof (relation "measure (\<lambda>(t, it, self, ign). size t)", goal_cases)
  case 1
  show ?case by simp
next
  case (2 titem sel cs sz it self ignoreIds x k c res)
  then have "(k, c) \<in> set cs" by (auto simp: forIn_def)
  then have "size c < Suc (size_list (size_prod (\<lambda>x. 0) size) cs)"
    by (induction cs) auto
  then show ?case by simp
next
  case (3 titem sel cs sz it self ignoreIds i present c)
  then have "(keyOf i, c) \<in> set cs" by (auto dest: map_of_SomeD)
  then have "size c < Suc (size_list (size_prod (\<lambda>x. 0) size) cs)"
    by (induction cs) auto
  then show ?case by simp
qed

text \<open>
  \<open>getSelected(selection?)\<close> pushes onto the array it is given (an empty one when the
  argument is left out) and returns it: the selected items in pre-order.
\<close>

function getSelected :: "SelectionTreeType \<Rightarrow> ListItem list \<Rightarrow> ListItem list" where
  "getSelected (SelectionTreeType titem sel cs sz) selection =
     fold (\<lambda>(key, c) acc. getSelected c acc) (forIn cs)
       (if sel then selection @ [titem] else selection)"
  by pat_completeness auto
termination
proof (relation "measure (\<lambda>(t, acc). size t)")
  show "wf (measure (\<lambda>(t, acc). size t))" by simp
next
  fix titem :: ListItem and sel :: bool and cs :: "(string \<times> SelectionTreeType) list"
    and sz :: int and selection :: "ListItem list"
    and x :: "string \<times> SelectionTreeType" and key :: string and c :: SelectionTreeType
    and acc :: "ListItem list"
  assume "x \<in> set (forIn cs)" and "(key, c) = x"
  then have "(key, c) \<in> set cs" by (auto simp: forIn_def)
  then have "size c < Suc (size_list (size_prod (\<lambda>x. 0) size) cs)"
    by (induction cs) auto
  then show "((c, acc), (SelectionTreeType titem sel cs sz, selection))
             \<in> measure (\<lambda>(t, acc). size t)"
    by simp
qed


text \<open>\<open>deleteChild(id)\<close>.\<close>

definition deleteChild ::
  "ident \<Rightarrow> SelectionTreeType \<Rightarrow> error option \<times> SelectionTreeType" where
  "deleteChild i t =
     (case hasOwnProperty (children t) i of
        Inl e \<Rightarrow> (Some e, t)
      | Inr present \<Rightarrow>
         (case map_of (children t) (keyOf i) of
            None \<Rightarrow> (None, t)
          | Some c \<Rightarrow>
              (None, SelectionTreeType (item t) (selected t)
                       (AList.delete (keyOf i) (children t)) (size_field t - size_field c))))"

section \<open>The operations on the selection store\<close>

text \<open>
  The store \<open>selection\<close> holds one tree, created as
  \<open>new SelectionTreeType(new ListRootItem())\<close>. \<open>selection.update(f)\<close> calls \<open>f\<close> on
  the tree, which \<open>f\<close> changes in place; each operation is the function it passes to
  \<open>update\<close>, with its outcome and the tree as it leaves it.
\<close>

definition initialSelection :: SelectionTreeType where
  "initialSelection = newSelectionTreeType ListRootItem"

definition selectItem ::
  "ListItem \<Rightarrow> SelectionTreeType \<Rightarrow> error option \<times> SelectionTreeType" where
  "selectItem it sel = set_item it True (clear sel)"

definition selectFile ::
  "string \<Rightarrow> SelectionTreeType \<Rightarrow> error option \<times> SelectionTreeType" where
  "selectFile fileId sel = selectItem (ListFileItem fileId) sel"

definition addSelectItem ::
  "ListItem \<Rightarrow> SelectionTreeType \<Rightarrow> error option \<times> SelectionTreeType" where
  "addSelectItem it sel = toggle it sel"

definition addSelectFile ::
  "string \<Rightarrow> SelectionTreeType \<Rightarrow> error option \<times> SelectionTreeType" where
  "addSelectFile fileId sel = addSelectItem (ListFileItem fileId) sel"











section \<open>Notions used to state the properties\<close>

text \<open>The property names of an object are unique; this holds of the dictionary of every
  node.\<close>

fun uniqueKeys :: "SelectionTreeType \<Rightarrow> bool" where
  "uniqueKeys (SelectionTreeType titem sel cs sz) =
     (distinct (map fst cs) \<and> list_all (\<lambda>(k, c). uniqueKeys c) cs)"

text \<open>The number of nodes with \<open>selected = true\<close> in a subtree, the node itself
  included, and the statement that the field \<open>size\<close> of every node of a subtree is that
  number.\<close>

fun countSelected :: "SelectionTreeType \<Rightarrow> nat" where
  "countSelected (SelectionTreeType titem sel cs sz) =
     (if sel then 1 else 0) + sum_list (map (\<lambda>(k, c). countSelected c) cs)"

fun sizeCorrect :: "SelectionTreeType \<Rightarrow> bool" where
  "sizeCorrect (SelectionTreeType titem sel cs sz) =
     (sz = int (countSelected (SelectionTreeType titem sel cs sz))
      \<and> list_all (\<lambda>(k, c). sizeCorrect c) cs)"

text \<open>Every node of the subtree has \<open>selected = false\<close> and \<open>size = 0\<close>.\<close>

fun allCleared :: "SelectionTreeType \<Rightarrow> bool" where
  "allCleared (SelectionTreeType titem sel cs sz) =
     (\<not> sel \<and> sz = 0 \<and> list_all (\<lambda>(k, c). allCleared c) cs)"



text \<open>
  \<open>restored t t'\<close>: every node of \<open>t\<close> is a node of \<open>t'\<close>, at the same place and under the
  same key, with the same item, the same flag \<open>selected\<close> and the same \<open>size\<close>; the
  nodes that \<open>t'\<close> has in addition stand at the end of their dictionary and are not
  selected, with size 0, and so is everything below them.
\<close>

fun restored :: "SelectionTreeType \<Rightarrow> SelectionTreeType \<Rightarrow> bool" where
  "restored (SelectionTreeType titem sel cs sz) t' =
     (item t' = titem \<and> selected t' = sel \<and> size_field t' = sz
      \<and> length cs \<le> length (children t')
      \<and> list_all2 (\<lambda>(k, c) (k', c'). k' = k \<and> restored c c')
            cs (take (length cs) (children t'))
      \<and> list_all (\<lambda>(k, c'). allCleared c') (drop (length cs) (children t')))"

text \<open>
  The addresses of a tree fit its shape: the item of a child is the item of its parent
  extended by the identifier under whose key the child is stored.
\<close>

fun addressed :: "SelectionTreeType \<Rightarrow> bool" where
  "addressed (SelectionTreeType titem sel cs sz) =
     list_all (\<lambda>(k, c).
        (case getIdAtLevel (item c) (level titem) of
           None \<Rightarrow> False
         | Some i \<Rightarrow> keyOf i = k \<and> item c = extend titem i)
        \<and> addressed c) cs"

text \<open>
  No dictionary of the tree has an own property named \<open>hasOwnProperty\<close>; and an item
  whose file identifier is neither \<open>hasOwnProperty\<close> nor \<open>__proto__\<close>. The other
  identifiers of an item are numbers or the string \<open>waypoints\<close>.
\<close>

fun plainTree :: "SelectionTreeType \<Rightarrow> bool" where
  "plainTree (SelectionTreeType titem sel cs sz) =
     (map_of cs ''hasOwnProperty'' = None \<and> list_all (\<lambda>(k, c). plainTree c) cs)"

definition ordinaryItem :: "ListItem \<Rightarrow> bool" where
  "ordinaryItem it =
     (getFileId it \<noteq> Some ''hasOwnProperty'' \<and> getFileId it \<noteq> Some ''__proto__'')"

text \<open>
  The trees the store can hold when no prototype is replaced: the initial tree, and the
  tree as \<open>set\<close>, \<open>toggle\<close>, \<open>deleteChild\<close> and \<open>clear\<close>, called on the tree of the
  store, leave such a tree, whether the call returns or throws. The items given to
  \<open>set\<close> and \<open>toggle\<close> have a file identifier other than \<open>__proto__\<close>.
\<close>

inductive reachable :: "SelectionTreeType \<Rightarrow> bool" where
  initial: "reachable initialSelection"
| by_set: "reachable t \<Longrightarrow> getFileId it \<noteq> Some ''__proto__''
           \<Longrightarrow> reachable (snd (set_item it v t))"
| by_toggle: "reachable t \<Longrightarrow> getFileId it \<noteq> Some ''__proto__''
              \<Longrightarrow> reachable (snd (toggle it t))"
| by_deleteChild: "reachable t \<Longrightarrow> reachable (snd (deleteChild i t))"
| by_clear: "reachable t \<Longrightarrow> reachable (clear t)"

text \<open>
  The walk of \<open>has\<close> down the address path of an item breaks off: at some node on the
  way, whose level is not the level of the item, \<open>getIdAtLevel\<close> is undefined or the
  dictionary has no child under the key.
\<close>

function lookupFails :: "SelectionTreeType \<Rightarrow> ListItem \<Rightarrow> bool" where
  "lookupFails (SelectionTreeType titem sel cs sz) it =
     (level it \<noteq> level titem \<and>
      (case getIdAtLevel it (level titem) of
         None \<Rightarrow> True
       | Some i \<Rightarrow>
          (case map_of cs (keyOf i) of
             None \<Rightarrow> True
           | Some c \<Rightarrow> lookupFails c it)))"
  by pat_completeness auto
termination
proof (relation "measure (\<lambda>(t, it). size t)")
  show "wf (measure (\<lambda>(t, it). size t))" by simp
next
  fix titem :: ListItem and sel :: bool and cs :: "(string \<times> SelectionTreeType) list"
    and sz :: int and it :: ListItem and i :: ident and c :: SelectionTreeType
  assume "map_of cs (keyOf i) = Some c"
  then have "(keyOf i, c) \<in> set cs" by (rule map_of_SomeD)
  then have "size c < Suc (size_list (size_prod (\<lambda>x. 0) size) cs)"
    by (induction cs) auto
  then show "((c, it), (SelectionTreeType titem sel cs sz, it)) \<in> measure (\<lambda>(t, it). size t)"
    by simp
qed



section \<open>Auxiliary functions of the proofs\<close>

text \<open>
  \<open>setOrToggle_plain\<close> is the tree that \<open>_setOrToggle\<close> leaves when no call of
  \<open>hasOwnProperty\<close> throws and no prototype is replaced, and \<open>has_plain\<close> is the answer
  of \<open>has\<close> when no call of \<open>hasOwnProperty\<close> throws. They serve the proofs only; the
  lemmas \<open>setOrToggle_plain_eq\<close> and \<open>has_plain_eq\<close> say when the methods agree with
  them.
\<close>

function setOrToggle_plain ::
  "ListItem \<Rightarrow> bool option \<Rightarrow> SelectionTreeType \<Rightarrow> SelectionTreeType" where
  "setOrToggle_plain it val (SelectionTreeType titem sel cs sz) =
     (if level it = level titem then
        (let newSelected = (case val of None \<Rightarrow> \<not> sel | Some v \<Rightarrow> v) in
         if sel \<noteq> newSelected
         then SelectionTreeType titem newSelected cs (sz + (if newSelected then 1 else - 1))
         else SelectionTreeType titem sel cs sz)
      else
        (case getIdAtLevel it (level titem) of
           None \<Rightarrow> SelectionTreeType titem sel cs sz
         | Some i \<Rightarrow>
            (let child = (case map_of cs (keyOf i) of
                            None \<Rightarrow> newSelectionTreeType (extend titem i)
                          | Some c \<Rightarrow> c);
                 child' = setOrToggle_plain it val child
             in SelectionTreeType titem sel (AList.update (keyOf i) child' cs)
                  (sz - size_field child + size_field child'))))"
  by pat_completeness auto
termination
proof (relation "measures [\<lambda>(it, val, t). size t,
                           \<lambda>(it, val, t). 5 - levelNum (level (item t))]", goal_cases)
  case 1
  show ?case by simp
next
  case (2 it val titem sel cs sz i child)
  then have gi: "getIdAtLevel it (level titem) = Some i"
    and ch: "child = (case map_of cs (keyOf i) of
                        None \<Rightarrow> newSelectionTreeType (extend titem i) | Some c \<Rightarrow> c)"
    by simp_all
  have mem: "size c < Suc (size_list (size_prod (\<lambda>x. 0) size) ys)"
    if "(k, c) \<in> set ys" for k c and ys :: "(string \<times> SelectionTreeType) list"
    using that by (induction ys) auto
  have deeper: "levelNum (level titem) < levelNum (level (extend titem i))"
    using gi by (cases it; cases titem; cases i) (auto split: if_splits)
  show ?case
  proof (cases "map_of cs (keyOf i)")
    case None
    have "levelNum (level (extend titem i)) \<le> 5"
      by (cases "level (extend titem i)") auto
    with None ch deeper show ?thesis
      by (cases cs) (auto simp: newSelectionTreeType_def)
  next
    case (Some c)
    then have "(keyOf i, c) \<in> set cs" by (rule map_of_SomeD)
    from mem [OF this] Some ch show ?thesis by simp
  qed
qed

function has_plain :: "SelectionTreeType \<Rightarrow> ListItem \<Rightarrow> bool" where
  "has_plain (SelectionTreeType titem sel cs sz) it =
     (if level it = level titem then sel
      else
        (case getIdAtLevel it (level titem) of
           None \<Rightarrow> False
         | Some i \<Rightarrow>
            (case map_of cs (keyOf i) of
               None \<Rightarrow> False
             | Some c \<Rightarrow> has_plain c it)))"
  by pat_completeness auto
termination
proof (relation "measure (\<lambda>(t, it). size t)", goal_cases)
  case 1
  show ?case by simp
next
  case (2 titem sel cs sz it i c)
  then have "(keyOf i, c) \<in> set cs" by (auto dest: map_of_SomeD)
  then have "size c < Suc (size_list (size_prod (\<lambda>x. 0) size) cs)"
    by (induction cs) auto
  then show ?case by simp
qed



section \<open>Dictionaries\<close>

lemma set_forIn: "set (forIn obj) = set obj"
  by (auto simp: forIn_def)

lemma mset_forIn: "mset (forIn obj) = mset obj"
proof -
  let ?Q = "\<lambda>x :: string \<times> 'a. arrayIndex (fst x) \<noteq> None"
  have "mset (forIn obj) = filter_mset ?Q (mset obj) + filter_mset (\<lambda>x. \<not> ?Q x) (mset obj)"
    by (simp add: forIn_def case_prod_beta)
  also have "\<dots> = mset obj"
    by (rule multiset_partition [symmetric])
  finally show ?thesis .
qed

lemma list_all_children: "list_all (\<lambda>(k, c). P c) cs = (\<forall>(k, c) \<in> set cs. P c)"
  by (auto simp: list_all_iff)

lemma map_of_unique: "distinct (map fst cs) \<Longrightarrow> (k, c) \<in> set cs \<Longrightarrow> map_of cs k = Some c"
  by simp


section \<open>The queries leave the tree as it is\<close>

lemma has_frame: "snd (has t it) = t"
proof (induction t it rule: has.induct)
  case (1 titem sel cs sz it)
  show ?case
  proof (cases "level it = level titem")
    case True
    then show ?thesis by simp
  next
    case lv: False
    show ?thesis
    proof (cases "getIdAtLevel it (level titem)")
      case None
      with lv show ?thesis by simp
    next
      case gi: (Some i)
      show ?thesis
      proof (cases "hasOwnProperty cs i")
        case (Inl e)
        with lv gi show ?thesis by simp
      next
        case hop: (Inr present)
        show ?thesis
        proof (cases "map_of cs (keyOf i)")
          case None
          with lv gi hop show ?thesis by simp
        next
          case (Some c)
          from "1.IH" [OF lv gi hop Some] have "snd (has c it) = c" .
          with lv gi hop Some show ?thesis
            by (simp add: case_prod_beta update_triv)
        qed
      qed
    qed
  qed
qed

lemma hasAnyParent_frame: "snd (hasAnyParent t it self) = t"
proof (induction t it self rule: hasAnyParent.induct)
  case (1 titem sel cs sz it self)
  let ?stop = "sel \<and> levelNum (level titem) \<le> levelNum (level it)
          \<and> (self \<or> levelNum (level titem) < levelNum (level it))"
  show ?case
  proof (cases ?stop)
    case True
    then show ?thesis by simp
  next
    case lv: False
    show ?thesis
    proof (cases "getIdAtLevel it (level titem)")
      case None
      with lv show ?thesis by simp
    next
      case gi: (Some i)
      show ?thesis
      proof (cases "hasOwnProperty cs i")
        case (Inl e)
        with lv gi show ?thesis by simp
      next
        case hop: (Inr present)
        show ?thesis
        proof (cases "map_of cs (keyOf i)")
          case None
          with lv gi hop show ?thesis by simp
        next
          case (Some c)
          from "1.IH" [OF lv gi hop Some] have "snd (hasAnyParent c it self) = c" .
          with lv gi hop Some show ?thesis
            by (simp add: case_prod_beta update_triv)
        qed
      qed
    qed
  qed
qed

lemma children_loop_frame:
  assumes "\<And>k c. (k, c) \<in> set xs \<Longrightarrow> P k \<Longrightarrow> map_of cs k = Some c \<and> snd (f c) = c"
  shows "snd (fold (\<lambda>(key, c) (res, cs').
                      if res \<noteq> Inr False then (res, cs')
                      else if P key then
                        (case f c of (r, c') \<Rightarrow> (r, AList.update key c' cs'))
                      else (res, cs')) xs (b, cs)) = cs"
  using assms
proof (induction xs arbitrary: b)
  case Nil
  then show ?case by simp
next
  case (Cons x xs)
  obtain k c where x: "x = (k, c)" by (cases x)
  have rest: "\<And>b'. snd (fold (\<lambda>(key, c) (res, cs').
                          if res \<noteq> Inr False then (res, cs')
                          else if P key then
                            (case f c of (r, c') \<Rightarrow> (r, AList.update key c' cs'))
                          else (res, cs')) xs (b', cs)) = cs"
    by (rule Cons.IH) (use Cons.prems in auto)
  show ?case
  proof (cases "P k")
    case True
    from Cons.prems [of k c] x True
    have kc: "map_of cs k = Some c" "snd (f c) = c" by auto
    show ?thesis
      using kc rest True by (cases "f c") (simp add: x update_triv)
  next
    case False
    then show ?thesis using rest by (simp add: x)
  qed
qed

lemma hasAnyChildren_frame:
  "uniqueKeys t \<Longrightarrow> snd (hasAnyChildren t it self ignoreIds) = t"
proof (induction t it self ignoreIds rule: hasAnyChildren.induct)
  case (1 titem sel cs sz it self ignoreIds)
  let ?stop = "sel \<and> levelNum (level it) \<le> levelNum (level titem)
          \<and> (self \<or> levelNum (level it) < levelNum (level titem))"
  from "1.prems" have dist: "distinct (map fst cs)"
    and sub: "\<And>k c. (k, c) \<in> set cs \<Longrightarrow> uniqueKeys c"
    by (auto simp: list_all_children)
  show ?case
  proof (cases ?stop)
    case True
    then show ?thesis by simp
  next
    case lv: False
    show ?thesis
    proof (cases "getIdAtLevel it (level titem)")
      case None
      have "snd (fold (\<lambda>(key, c) (res, cs').
                      if res \<noteq> Inr False then (res, cs')
                      else if notIgnored ignoreIds (IdStr key) then
                        (case hasAnyChildren c it self ignoreIds of
                           (r, c') \<Rightarrow> (r, AList.update key c' cs'))
                      else (res, cs')) (forIn cs) (Inr False, cs)) = cs"
      proof (rule children_loop_frame)
        fix k c
        assume kc: "(k, c) \<in> set (forIn cs)" and ni: "notIgnored ignoreIds (IdStr k)"
        then have mem: "(k, c) \<in> set cs" by (simp add: set_forIn)
        have "snd (hasAnyChildren c it self ignoreIds) = c"
          using "1.IH"(1) [OF lv None kc refl _ ni, of "Inr False"] sub [OF mem] by simp
        with dist mem show "map_of cs k = Some c \<and> snd (hasAnyChildren c it self ignoreIds) = c"
          by simp
      qed
      with lv None show ?thesis
        by (simp add: case_prod_beta)
    next
      case gi: (Some i)
      show ?thesis
      proof (cases "notIgnored ignoreIds i")
        case False
        with lv gi show ?thesis by simp
      next
        case ni: True
        show ?thesis
        proof (cases "hasOwnProperty cs i")
          case (Inl e)
          with lv gi ni show ?thesis by simp
        next
          case hop: (Inr present)
          show ?thesis
          proof (cases "map_of cs (keyOf i)")
            case None
            with lv gi ni hop show ?thesis by simp
          next
            case (Some c)
            then have "(keyOf i, c) \<in> set cs" by (rule map_of_SomeD)
            from "1.IH"(2) [OF lv gi ni hop Some] sub [OF this]
            have "snd (hasAnyChildren c it self ignoreIds) = c" .
            with lv gi ni hop Some show ?thesis
              by (simp add: case_prod_beta update_triv)
          qed
        qed
      qed
    qed
  qed
qed

text \<open>
  C10. \<open>hasAnyParent(item, self)\<close> and \<open>hasAnyChildren(item, self, ignoreIds)\<close> leave
  the tree as it was: the tree after the call is the tree before it, with the same
  nodes, flags and sizes.
\<close>

theorem queries_leave_tree_unchanged:
  "uniqueKeys t \<Longrightarrow>
     snd (hasAnyParent t it self) = t \<and> snd (hasAnyChildren t it self ignoreIds) = t"
  by (simp add: hasAnyParent_frame hasAnyChildren_frame)

theorem queries_leave_tree_unchanged_witness:
  "uniqueKeys
     (SelectionTreeType ListRootItem False
        [(''f1'', SelectionTreeType (ListFileItem ''f1'') False
           [(''0'', SelectionTreeType (ListTrackItem ''f1'' 0) True [] 1)] 1),
         (''f2'', SelectionTreeType (ListFileItem ''f2'') True [] 1)] 2)
   \<and> snd (hasAnyParent
     (SelectionTreeType ListRootItem False
        [(''f1'', SelectionTreeType (ListFileItem ''f1'') False
           [(''0'', SelectionTreeType (ListTrackItem ''f1'' 0) True [] 1)] 1),
         (''f2'', SelectionTreeType (ListFileItem ''f2'') True [] 1)] 2)
     (ListTrackItem ''f1'' 0) False)
   = SelectionTreeType ListRootItem False
        [(''f1'', SelectionTreeType (ListFileItem ''f1'') False
           [(''0'', SelectionTreeType (ListTrackItem ''f1'' 0) True [] 1)] 1),
         (''f2'', SelectionTreeType (ListFileItem ''f2'') True [] 1)] 2
   \<and> snd (hasAnyChildren
     (SelectionTreeType ListRootItem False
        [(''f1'', SelectionTreeType (ListFileItem ''f1'') False
           [(''0'', SelectionTreeType (ListTrackItem ''f1'' 0) True [] 1)] 1),
         (''f2'', SelectionTreeType (ListFileItem ''f2'') True [] 1)] 2)
     ListRootItem False (Some [IdStr ''f2'']))
   = SelectionTreeType ListRootItem False
        [(''f1'', SelectionTreeType (ListFileItem ''f1'') False
           [(''0'', SelectionTreeType (ListTrackItem ''f1'' 0) True [] 1)] 1),
         (''f2'', SelectionTreeType (ListFileItem ''f2'') True [] 1)] 2"
proof -
  let ?t = "SelectionTreeType ListRootItem False
        [(''f1'', SelectionTreeType (ListFileItem ''f1'') False
           [(''0'', SelectionTreeType (ListTrackItem ''f1'' 0) True [] 1)] 1),
         (''f2'', SelectionTreeType (ListFileItem ''f2'') True [] 1)] 2"
  have h: "uniqueKeys ?t" by simp
  from queries_leave_tree_unchanged [OF h]
  have a: "snd (hasAnyParent ?t (ListTrackItem ''f1'' 0) False) = ?t" by blast
  from queries_leave_tree_unchanged [OF h]
  have b: "snd (hasAnyChildren ?t ListRootItem False (Some [IdStr ''f2''])) = ?t" by blast
  from h a b show ?thesis by blast
qed

section \<open>The selected items\<close>

lemma fold_getSelected:
  assumes "\<And>k c acc. (k, c) \<in> set xs \<Longrightarrow> getSelected c acc = acc @ getSelected c []"
  shows "fold (\<lambda>(key, c) acc. getSelected c acc) xs acc
         = acc @ concat (map (\<lambda>(k, c). getSelected c []) xs)"
  using assms
proof (induction xs arbitrary: acc)
  case Nil
  then show ?case by simp
next
  case (Cons x xs)
  obtain k c where x: "x = (k, c)" by (cases x)
  have "getSelected c acc = acc @ getSelected c []"
    using Cons.prems [of k c acc] x by simp
  moreover have "fold (\<lambda>(key, c) acc. getSelected c acc) xs (acc @ getSelected c [])
         = (acc @ getSelected c []) @ concat (map (\<lambda>(k, c). getSelected c []) xs)"
    by (rule Cons.IH) (use Cons.prems in auto)
  ultimately show ?case by (simp add: x)
qed

lemma getSelected_acc: "getSelected t acc = acc @ getSelected t []"
proof (induction t acc rule: getSelected.induct)
  case (1 titem sel cs sz selection)
  have step: "\<And>k c acc. (k, c) \<in> set (forIn cs) \<Longrightarrow> getSelected c acc = acc @ getSelected c []"
    using "1.IH" by blast
  show ?case
    by (simp add: fold_getSelected [OF step])
qed

lemma getSelected_Node:
  "getSelected (SelectionTreeType titem sel cs sz) []
   = (if sel then [titem] else []) @ concat (map (\<lambda>(k, c). getSelected c []) (forIn cs))"
proof -
  have "fold (\<lambda>(key, c) acc. getSelected c acc) (forIn cs) acc
         = acc @ concat (map (\<lambda>(k, c). getSelected c []) (forIn cs))" for acc
    by (rule fold_getSelected) (rule getSelected_acc)
  then show ?thesis by simp
qed




section \<open>The answers of has\<close>

lemma hasOwnProperty_plain:
  "map_of cs ''hasOwnProperty'' = None
   \<Longrightarrow> hasOwnProperty cs i = Inr (map_of cs (keyOf i) \<noteq> None)"
  by (simp add: hasOwnProperty_def)

lemma hasOwnProperty_cases:
  "hasOwnProperty cs i = Inl TypeError
   \<or> hasOwnProperty cs i = Inr (map_of cs (keyOf i) \<noteq> None)"
  by (simp add: hasOwnProperty_def)

lemma plainTree_child:
  "plainTree (SelectionTreeType titem sel cs sz) \<Longrightarrow> map_of cs k = Some c \<Longrightarrow> plainTree c"
  by (auto simp: list_all_children dest: map_of_SomeD)

lemma has_cases:
  "has t it = (Inl TypeError, t) \<or> has t it = (Inr (has_plain t it), t)"
proof (induction t it rule: has.induct)
  case (1 titem sel cs sz it)
  show ?case
  proof (cases "level it = level titem")
    case True
    then show ?thesis by simp
  next
    case lv: False
    show ?thesis
    proof (cases "getIdAtLevel it (level titem)")
      case None
      with lv show ?thesis by simp
    next
      case gi: (Some i)
      show ?thesis
      proof (cases "hasOwnProperty cs i")
        case (Inl e)
        with hasOwnProperty_cases [of cs i] have "hasOwnProperty cs i = Inl TypeError"
          by auto
        with lv gi show ?thesis by simp
      next
        case hop: (Inr present)
        show ?thesis
        proof (cases "map_of cs (keyOf i)")
          case None
          with lv gi hop show ?thesis by simp
        next
          case (Some c)
          from "1.IH" [OF lv gi hop Some]
          show ?thesis
            using lv gi hop Some by (auto simp: update_triv)
        qed
      qed
    qed
  qed
qed

lemma has_plain_eq: "plainTree t \<Longrightarrow> has t it = (Inr (has_plain t it), t)"
proof (induction t it rule: has.induct)
  case (1 titem sel cs sz it)
  from "1.prems" have hop: "hasOwnProperty cs i = Inr (map_of cs (keyOf i) \<noteq> None)" for i
    by (simp add: hasOwnProperty_plain)
  show ?case
  proof (cases "level it = level titem")
    case True
    then show ?thesis by simp
  next
    case lv: False
    show ?thesis
    proof (cases "getIdAtLevel it (level titem)")
      case None
      with lv show ?thesis by simp
    next
      case gi: (Some i)
      show ?thesis
      proof (cases "map_of cs (keyOf i)")
        case None
        with lv gi hop [of i] show ?thesis by simp
      next
        case (Some c)
        have "plainTree c" by (rule plainTree_child [OF "1.prems" Some])
        from "1.IH" [OF lv gi hop Some this]
        show ?thesis
          using lv gi hop [of i] Some by (simp add: update_triv)
      qed
    qed
  qed
qed

lemma lookupFails_has_plain: "lookupFails t it \<Longrightarrow> \<not> has_plain t it"
proof (induction t it rule: has_plain.induct)
  case (1 titem sel cs sz it)
  from "1.prems" have lv: "level it \<noteq> level titem" by simp
  show ?case
  proof (cases "getIdAtLevel it (level titem)")
    case None
    with lv show ?thesis by simp
  next
    case gi: (Some i)
    show ?thesis
    proof (cases "map_of cs (keyOf i)")
      case None
      with lv gi show ?thesis by simp
    next
      case (Some c)
      with "1.prems" gi have "lookupFails c it" by simp
      from "1.IH" [OF lv gi Some this] lv gi Some show ?thesis
        by simp
    qed
  qed
qed

text \<open>
  C9. As the claim states it, \<open>has\<close> returns false whenever a child on the address path
  is absent. On the root whose dictionary holds one child, under the key
  \<open>hasOwnProperty\<close>, the file \<open>f1\<close> has no child, and \<open>has(FileItem f1)\<close> throws a
  TypeError at the call \<open>this.children.hasOwnProperty(id)\<close>.
\<close>

theorem has_throws_counterexample:
  "lookupFails
     (SelectionTreeType ListRootItem False
        [(''hasOwnProperty'', SelectionTreeType (ListFileItem ''hasOwnProperty'') True [] 1)] 1)
     (ListFileItem ''f1'')
   \<and> has (SelectionTreeType ListRootItem False
        [(''hasOwnProperty'', SelectionTreeType (ListFileItem ''hasOwnProperty'') True [] 1)] 1)
       (ListFileItem ''f1'')
     = (Inl TypeError,
        SelectionTreeType ListRootItem False
        [(''hasOwnProperty'', SelectionTreeType (ListFileItem ''hasOwnProperty'') True [] 1)] 1)"
  by (simp add: hasOwnProperty_def)

text \<open>
  C9, amended. \<open>has(item)\<close> is read-only on every tree and for every item: whether it
  returns or throws, the tree it leaves is the tree it was given, so that no node is
  created and no field is changed. On a tree none of whose dictionaries has an own
  property named \<open>hasOwnProperty\<close> it returns a boolean, and the boolean is false when
  the walk down the address path breaks off, because a child on the way is absent or
  \<open>getIdAtLevel\<close> is undefined at a level on the way. On any tree, a call that does not
  return throws a TypeError.
\<close>

theorem has_read_only_total_on_plain:
  "snd (has t it) = t
   \<and> (fst (has t it) = Inl TypeError \<or> (\<exists>b. fst (has t it) = Inr b))
   \<and> (plainTree t \<longrightarrow>
        (\<exists>b. fst (has t it) = Inr b) \<and> (lookupFails t it \<longrightarrow> fst (has t it) = Inr False))"
proof (intro conjI impI)
  show "snd (has t it) = t" by (rule has_frame)
  show "fst (has t it) = Inl TypeError \<or> (\<exists>b. fst (has t it) = Inr b)"
    using has_cases [of t it] by auto
next
  assume "plainTree t"
  then have eq: "has t it = (Inr (has_plain t it), t)" by (rule has_plain_eq)
  then show "\<exists>b. fst (has t it) = Inr b" by simp
  assume "lookupFails t it"
  then have "\<not> has_plain t it" by (rule lookupFails_has_plain)
  with eq show "fst (has t it) = Inr False" by simp
qed

theorem has_read_only_total_on_plain_witness:
  "plainTree (SelectionTreeType ListRootItem False
       [(''f1'', SelectionTreeType (ListFileItem ''f1'') True [] 1)] 1)
   \<and> lookupFails (SelectionTreeType ListRootItem False
       [(''f1'', SelectionTreeType (ListFileItem ''f1'') True [] 1)] 1)
       (ListTrackItem ''f1'' 0)
   \<and> has (SelectionTreeType ListRootItem False
       [(''f1'', SelectionTreeType (ListFileItem ''f1'') True [] 1)] 1)
       (ListTrackItem ''f1'' 0)
     = (Inr False, SelectionTreeType ListRootItem False
       [(''f1'', SelectionTreeType (ListFileItem ''f1'') True [] 1)] 1)"
proof -
  let ?t = "SelectionTreeType ListRootItem False
       [(''f1'', SelectionTreeType (ListFileItem ''f1'') True [] 1)] 1"
  have p: "plainTree ?t" by simp
  have l: "lookupFails ?t (ListTrackItem ''f1'' 0)"
    by (simp add: string_of_nat.simps digit_char_def)
  from has_read_only_total_on_plain [of ?t "ListTrackItem ''f1'' 0"] p l
  have "snd (has ?t (ListTrackItem ''f1'' 0)) = ?t"
    and "fst (has ?t (ListTrackItem ''f1'' 0)) = Inr False" by blast+
  then have "has ?t (ListTrackItem ''f1'' 0) = (Inr False, ?t)"
    by (metis prod.collapse)
  with p l show ?thesis by blast
qed

section \<open>Cleared trees\<close>

lemma allCleared_clear: "allCleared (clear t)"
  by (induction t rule: clear.induct) (auto simp: list_all_iff)




lemma allCleared_child:
  "allCleared (SelectionTreeType titem sel cs sz) \<Longrightarrow> map_of cs k = Some c \<Longrightarrow> allCleared c"
  by (auto simp: list_all_iff dest!: map_of_SomeD)

lemma allCleared_has_plain: "allCleared t \<Longrightarrow> \<not> has_plain t it"
proof (induction t it rule: has_plain.induct)
  case (1 titem sel cs sz it)
  show ?case
  proof (cases "level it = level titem")
    case True
    with "1.prems" show ?thesis by simp
  next
    case lv: False
    show ?thesis
    proof (cases "getIdAtLevel it (level titem)")
      case None
      with lv show ?thesis by simp
    next
      case gi: (Some i)
      show ?thesis
      proof (cases "map_of cs (keyOf i)")
        case None
        with lv gi show ?thesis by simp
      next
        case (Some c)
        from "1.IH" [OF lv gi Some allCleared_child [OF "1.prems" Some]] lv gi Some
        show ?thesis by simp
      qed
    qed
  qed
qed








section \<open>Property names of numbers\<close>

lemma digit_char_inj: "a < 10 \<Longrightarrow> b < 10 \<Longrightarrow> digit_char a = digit_char b \<Longrightarrow> a = b"
proof -
  assume a: "a < 10" and b: "b < 10" and e: "digit_char a = digit_char b"
  have d: "distinct ''0123456789''" by simp
  from a b have "a < length ''0123456789''" "b < length ''0123456789''" by simp_all
  with d e show "a = b"
    unfolding digit_char_def by (simp only: nth_eq_iff_index_eq)
qed

lemma digit_char_digit: "d < 10 \<Longrightarrow> digit_char d \<in> set ''0123456789''"
  unfolding digit_char_def by (rule nth_mem) simp

lemma string_of_nat_nonempty: "string_of_nat n \<noteq> []"
  by (subst string_of_nat.simps) simp

lemma string_of_nat_digits: "set (string_of_nat n) \<subseteq> set ''0123456789''"
proof (induction n rule: string_of_nat.induct)
  case (1 n)
  show ?case
  proof (cases "n < 10")
    case True
    with digit_char_digit [of n] show ?thesis
      by (subst string_of_nat.simps) simp
  next
    case False
    have "n mod 10 < 10" by simp
    from digit_char_digit [OF this] "1.IH" [OF False] False show ?thesis
      by (subst string_of_nat.simps) simp
  qed
qed

lemma string_of_nat_inj: "string_of_nat n = string_of_nat m \<Longrightarrow> n = m"
proof (induction n arbitrary: m rule: string_of_nat.induct)
  case (1 n)
  show ?case
  proof (cases "n < 10")
    case n: True
    show ?thesis
    proof (cases "m < 10")
      case True
      with n "1.prems" have "digit_char n = digit_char m"
        by (simp add: string_of_nat.simps)
      with n True show ?thesis by (rule digit_char_inj)
    next
      case False
      with n "1.prems" have "string_of_nat (m div 10) = []"
        by (simp add: string_of_nat.simps [of n] string_of_nat.simps [of m])
      with string_of_nat_nonempty show ?thesis by blast
    qed
  next
    case n: False
    show ?thesis
    proof (cases "m < 10")
      case True
      with n "1.prems" have "string_of_nat (n div 10) = []"
        by (simp add: string_of_nat.simps [of n] string_of_nat.simps [of m])
      with string_of_nat_nonempty show ?thesis by blast
    next
      case False
      with n "1.prems"
      have a: "string_of_nat (n div 10) = string_of_nat (m div 10)"
        and b: "digit_char (n mod 10) = digit_char (m mod 10)"
        by (simp_all add: string_of_nat.simps [of n] string_of_nat.simps [of m])
      from "1.IH" [OF n a] have "n div 10 = m div 10" .
      moreover have "n mod 10 = m mod 10"
        by (rule digit_char_inj [OF _ _ b]) simp_all
      ultimately show ?thesis by (metis div_mult_mod_eq)
    qed
  qed
qed

lemma string_of_nat_not_waypoints: "string_of_nat n \<noteq> ''waypoints''"
proof
  assume "string_of_nat n = ''waypoints''"
  then have "CHR ''w'' \<in> set (string_of_nat n)" by simp
  with string_of_nat_digits [of n] show False by auto
qed


lemma string_of_nat_not_hasOwnProperty: "string_of_nat n \<noteq> ''hasOwnProperty''"
proof
  assume "string_of_nat n = ''hasOwnProperty''"
  then have "CHR ''h'' \<in> set (string_of_nat n)" by simp
  with string_of_nat_digits [of n] show False by auto
qed

lemma string_of_nat_not_proto: "string_of_nat n \<noteq> ''__proto__''"
proof
  assume "string_of_nat n = ''__proto__''"
  then have "CHR ''p'' \<in> set (string_of_nat n)" by simp
  with string_of_nat_digits [of n] show False by auto
qed

lemma getIdAtLevel_ROOT: "getFileId it = Some f \<Longrightarrow> getIdAtLevel it ROOT = Some (IdStr f)"
  by (cases it) auto

lemma getFileId_level: "getFileId it = Some f \<Longrightarrow> level it \<noteq> ROOT"
  by (cases it) auto

lemma key_not_hasOwnProperty:
  "getIdAtLevel it L = Some i \<Longrightarrow> getFileId it \<noteq> Some ''hasOwnProperty''
   \<Longrightarrow> keyOf i \<noteq> ''hasOwnProperty''"
  using string_of_nat_not_hasOwnProperty
  by (cases it; cases L) auto

lemma key_not_proto:
  "getIdAtLevel it L = Some i \<Longrightarrow> getFileId it \<noteq> Some ''__proto__''
   \<Longrightarrow> keyOf i \<noteq> ''__proto__''"
  using string_of_nat_not_proto
  by (cases it; cases L) auto

lemma key_below_root:
  "getIdAtLevel it L = Some i \<Longrightarrow> L \<noteq> ROOT
   \<Longrightarrow> keyOf i \<noteq> ''hasOwnProperty'' \<and> keyOf i \<noteq> ''__proto__''"
  using string_of_nat_not_hasOwnProperty string_of_nat_not_proto
  by (cases it; cases L) auto

section \<open>Deleting a child\<close>

text \<open>
  C8. As the claim states it, \<open>deleteChild(id)\<close> removes the child for every \<open>id\<close>
  present in the dictionary. On the root whose dictionary holds one child, under the
  key \<open>hasOwnProperty\<close>, \<open>deleteChild(hasOwnProperty)\<close> throws a TypeError at the call
  \<open>this.children.hasOwnProperty(id)\<close> and leaves the node as it was; and when the
  dictionary holds the files \<open>hasOwnProperty\<close> and \<open>f1\<close>, \<open>deleteChild(f1)\<close> does the
  same.
\<close>

theorem deleteChild_throws_counterexample:
  "deleteChild (IdStr ''hasOwnProperty'')
     (SelectionTreeType ListRootItem False
        [(''hasOwnProperty'', SelectionTreeType (ListFileItem ''hasOwnProperty'') True [] 1)] 1)
   = (Some TypeError,
      SelectionTreeType ListRootItem False
        [(''hasOwnProperty'', SelectionTreeType (ListFileItem ''hasOwnProperty'') True [] 1)] 1)
   \<and> deleteChild (IdStr ''f1'')
     (SelectionTreeType ListRootItem False
        [(''hasOwnProperty'', SelectionTreeType (ListFileItem ''hasOwnProperty'') True [] 1),
         (''f1'', SelectionTreeType (ListFileItem ''f1'') True [] 1)] 2)
   = (Some TypeError,
      SelectionTreeType ListRootItem False
        [(''hasOwnProperty'', SelectionTreeType (ListFileItem ''hasOwnProperty'') True [] 1),
         (''f1'', SelectionTreeType (ListFileItem ''f1'') True [] 1)] 2)"
  by (simp add: deleteChild_def hasOwnProperty_def)

text \<open>
  C8, amended. When the dictionary of a node has a child under the key of \<open>id\<close> and no
  own property named \<open>hasOwnProperty\<close>, \<open>deleteChild(id)\<close> returns, lowers the \<open>size\<close> of
  the node by the \<open>size\<close> of that child and removes the entry; the other entries, the
  item and the flag of the node stay. Called on the root with a file identifier, it
  leaves no item of that file selected: \<open>has\<close> answers false for every item of the file.
\<close>

theorem deleteChild_removes_child:
  "map_of (children t) (keyOf i) = Some c \<Longrightarrow> map_of (children t) ''hasOwnProperty'' = None \<Longrightarrow>
     fst (deleteChild i t) = None
     \<and> size_field (snd (deleteChild i t)) = size_field t - size_field c
     \<and> hasOwnProperty (children (snd (deleteChild i t))) i = Inr False
     \<and> (\<forall>k. k \<noteq> keyOf i \<longrightarrow>
            map_of (children (snd (deleteChild i t))) k = map_of (children t) k)
     \<and> item (snd (deleteChild i t)) = item t
     \<and> selected (snd (deleteChild i t)) = selected t
     \<and> (item t = ListRootItem \<longrightarrow>
          (\<forall>f it. i = IdStr f \<longrightarrow> getFileId it = Some f \<longrightarrow>
             fst (has (snd (deleteChild i t)) it) = Inr False))"
proof -
  assume c: "map_of (children t) (keyOf i) = Some c"
    and p: "map_of (children t) ''hasOwnProperty'' = None"
  obtain titem sel cs sz where t: "t = SelectionTreeType titem sel cs sz" by (cases t)
  from c t have m: "map_of cs (keyOf i) = Some c" by simp
  from p t have pl: "map_of cs ''hasOwnProperty'' = None" by simp
  let ?d = "SelectionTreeType titem sel (AList.delete (keyOf i) cs) (sz - size_field c)"
  have d: "deleteChild i t = (None, ?d)"
    using m pl t by (simp add: deleteChild_def hasOwnProperty_def)
  have gone: "map_of (AList.delete (keyOf i) cs) (keyOf i) = None"
    by (simp add: delete_conv)
  have others: "\<forall>k. k \<noteq> keyOf i \<longrightarrow> map_of (AList.delete (keyOf i) cs) k = map_of cs k"
    by (simp add: delete_conv)
  have pl': "map_of (AList.delete (keyOf i) cs) ''hasOwnProperty'' = None"
    using pl by (simp add: delete_conv)
  have hop: "hasOwnProperty (AList.delete (keyOf i) cs) i = Inr False"
    using gone pl' by (simp add: hasOwnProperty_def)
  have nohas: "fst (has ?d it) = Inr False"
    if "titem = ListRootItem" "i = IdStr f" "getFileId it = Some f" for f it
    using that hop gone getIdAtLevel_ROOT [OF that(3)] getFileId_level [OF that(3)]
    by simp
  have "fst (None :: error option, ?d) = None
     \<and> size_field (snd (None :: error option, ?d)) = size_field t - size_field c
     \<and> hasOwnProperty (children (snd (None :: error option, ?d))) i = Inr False
     \<and> (\<forall>k. k \<noteq> keyOf i \<longrightarrow>
            map_of (children (snd (None :: error option, ?d))) k = map_of (children t) k)
     \<and> item (snd (None :: error option, ?d)) = item t
     \<and> selected (snd (None :: error option, ?d)) = selected t
     \<and> (item t = ListRootItem \<longrightarrow>
          (\<forall>f it. i = IdStr f \<longrightarrow> getFileId it = Some f \<longrightarrow>
             fst (has (snd (None :: error option, ?d)) it) = Inr False))"
    using hop others nohas by (simp add: t)
  then show ?thesis
    unfolding d .
qed

theorem deleteChild_removes_child_witness:
  "map_of (children (SelectionTreeType ListRootItem False
        [(''f1'', SelectionTreeType (ListFileItem ''f1'') True
           [(''0'', SelectionTreeType (ListTrackItem ''f1'' 0) True [] 1),
            (''1'', SelectionTreeType (ListTrackItem ''f1'' 1) True [] 1)] 3),
         (''f2'', SelectionTreeType (ListFileItem ''f2'') True [] 1)] 4)) (keyOf (IdStr ''f1''))
   = Some (SelectionTreeType (ListFileItem ''f1'') True
           [(''0'', SelectionTreeType (ListTrackItem ''f1'' 0) True [] 1),
            (''1'', SelectionTreeType (ListTrackItem ''f1'' 1) True [] 1)] 3)
   \<and> map_of (children (SelectionTreeType ListRootItem False
        [(''f1'', SelectionTreeType (ListFileItem ''f1'') True
           [(''0'', SelectionTreeType (ListTrackItem ''f1'' 0) True [] 1),
            (''1'', SelectionTreeType (ListTrackItem ''f1'' 1) True [] 1)] 3),
         (''f2'', SelectionTreeType (ListFileItem ''f2'') True [] 1)] 4)) ''hasOwnProperty''
   = None
   \<and> deleteChild (IdStr ''f1'') (SelectionTreeType ListRootItem False
        [(''f1'', SelectionTreeType (ListFileItem ''f1'') True
           [(''0'', SelectionTreeType (ListTrackItem ''f1'' 0) True [] 1),
            (''1'', SelectionTreeType (ListTrackItem ''f1'' 1) True [] 1)] 3),
         (''f2'', SelectionTreeType (ListFileItem ''f2'') True [] 1)] 4)
   = (None, SelectionTreeType ListRootItem False
        [(''f2'', SelectionTreeType (ListFileItem ''f2'') True [] 1)] 1)
   \<and> size_field (snd (deleteChild (IdStr ''f1'') (SelectionTreeType ListRootItem False
        [(''f1'', SelectionTreeType (ListFileItem ''f1'') True
           [(''0'', SelectionTreeType (ListTrackItem ''f1'' 0) True [] 1),
            (''1'', SelectionTreeType (ListTrackItem ''f1'' 1) True [] 1)] 3),
         (''f2'', SelectionTreeType (ListFileItem ''f2'') True [] 1)] 4))) = 4 - 3
   \<and> fst (has (snd (deleteChild (IdStr ''f1'') (SelectionTreeType ListRootItem False
        [(''f1'', SelectionTreeType (ListFileItem ''f1'') True
           [(''0'', SelectionTreeType (ListTrackItem ''f1'' 0) True [] 1),
            (''1'', SelectionTreeType (ListTrackItem ''f1'' 1) True [] 1)] 3),
         (''f2'', SelectionTreeType (ListFileItem ''f2'') True [] 1)] 4)))
       (ListTrackItem ''f1'' 1)) = Inr False"
proof -
  let ?c = "SelectionTreeType (ListFileItem ''f1'') True
           [(''0'', SelectionTreeType (ListTrackItem ''f1'' 0) True [] 1),
            (''1'', SelectionTreeType (ListTrackItem ''f1'' 1) True [] 1)] 3"
  let ?t = "SelectionTreeType ListRootItem False
        [(''f1'', ?c), (''f2'', SelectionTreeType (ListFileItem ''f2'') True [] 1)] 4"
  have h: "map_of (children ?t) (keyOf (IdStr ''f1'')) = Some ?c" by simp
  have p: "map_of (children ?t) ''hasOwnProperty'' = None" by simp
  have e: "deleteChild (IdStr ''f1'') ?t = (None, SelectionTreeType ListRootItem False
        [(''f2'', SelectionTreeType (ListFileItem ''f2'') True [] 1)] 1)"
    by (simp add: deleteChild_def hasOwnProperty_def AList.delete_eq)
  from deleteChild_removes_child [OF h p]
  have "size_field (snd (deleteChild (IdStr ''f1'') ?t)) = 4 - 3"
    and "fst (has (snd (deleteChild (IdStr ''f1'') ?t)) (ListTrackItem ''f1'' 1)) = Inr False"
    by simp_all
  with h p e show ?thesis by blast
qed

section \<open>Selecting one item\<close>



lemma plainTree_new: "plainTree (newSelectionTreeType x)"
  by (simp add: newSelectionTreeType_def)


lemma plainTree_path_child:
  assumes "plainTree (SelectionTreeType titem sel cs sz)"
  shows "plainTree (case map_of cs k of None \<Rightarrow> newSelectionTreeType x | Some c \<Rightarrow> c)"
  using assms plainTree_child [OF assms] plainTree_new
  by (cases "map_of cs k") auto





section \<open>Toggling twice\<close>

lemma set_update_cases:
  "(k', c) \<in> set (AList.update k v cs) \<Longrightarrow> (k', c) = (k, v) \<or> (k', c) \<in> set cs"
  by (induction cs) (auto split: if_splits)

lemma restored_refl: "restored t t"
proof (induction t rule: clear.induct)
  case (1 titem sel cs sz)
  have "list_all2 (\<lambda>(k, c) (k', c'). k' = k \<and> restored c c') cs cs"
    using "1.IH" by (auto simp: list_all2_same)
  then show ?case by simp
qed

lemma restored_size_field: "restored t t' \<Longrightarrow> size_field t' = size_field t"
  by (cases t) simp

lemma restored_new: "restored (newSelectionTreeType x) t' \<Longrightarrow> allCleared t'"
  by (cases t') (simp add: newSelectionTreeType_def)

lemma restored_children_update:
  assumes "restored (case map_of cs k of None \<Rightarrow> newSelectionTreeType x | Some c \<Rightarrow> c) c2"
  shows "length cs \<le> length (AList.update k c2 cs)
     \<and> list_all2 (\<lambda>(k, c) (k', c'). k' = k \<and> restored c c')
          cs (take (length cs) (AList.update k c2 cs))
     \<and> list_all (\<lambda>(k, c'). allCleared c') (drop (length cs) (AList.update k c2 cs))"
  using assms
proof (induction cs)
  case Nil
  then show ?case by (simp add: restored_new)
next
  case (Cons p cs)
  obtain k' c' where p: "p = (k', c')" by (cases p)
  show ?case
  proof (cases "k' = k")
    case True
    with Cons.prems p have "restored c' c2" by simp
    moreover have "list_all2 (\<lambda>(k, c) (k', c'). k' = k \<and> restored c c') cs cs"
      by (auto simp: list_all2_same restored_refl)
    ultimately show ?thesis using True p by simp
  next
    case False
    with Cons.prems p
    have "restored (case map_of cs k of None \<Rightarrow> newSelectionTreeType x | Some c \<Rightarrow> c) c2"
      by simp
    from Cons.IH [OF this] False p show ?thesis
      by (simp add: restored_refl)
  qed
qed

lemma setOrToggle_plain_twice: "restored t (setOrToggle_plain it None (setOrToggle_plain it None t))"
proof (induction it "None :: bool option" t rule: setOrToggle_plain.induct)
  case (1 it titem sel cs sz)
  show ?case
  proof (cases "level it = level titem")
    case True
    have "setOrToggle_plain it None (setOrToggle_plain it None (SelectionTreeType titem sel cs sz))
          = SelectionTreeType titem sel cs sz"
      using True by (simp add: Let_def)
    then show ?thesis by (simp only: restored_refl)
  next
    case lv: False
    show ?thesis
    proof (cases "getIdAtLevel it (level titem)")
      case None
      with lv have "setOrToggle_plain it None (setOrToggle_plain it None (SelectionTreeType titem sel cs sz))
          = SelectionTreeType titem sel cs sz"
        by simp
      then show ?thesis by (simp only: restored_refl)
    next
      case gi: (Some i)
      let ?k = "keyOf i"
      let ?child = "case map_of cs ?k of
                      None \<Rightarrow> newSelectionTreeType (extend titem i) | Some c \<Rightarrow> c"
      let ?c1 = "setOrToggle_plain it None ?child"
      let ?c2 = "setOrToggle_plain it None ?c1"
      have ih: "restored ?child ?c2" by (rule "1.hyps" [OF lv gi refl])
      have two: "setOrToggle_plain it None (setOrToggle_plain it None (SelectionTreeType titem sel cs sz))
          = SelectionTreeType titem sel (AList.update ?k ?c2 cs)
              (sz - size_field ?child + size_field ?c1 - size_field ?c1 + size_field ?c2)"
        using lv gi by (simp add: Let_def update_conv update_last)
      have sz: "sz - size_field ?child + size_field ?c1 - size_field ?c1 + size_field ?c2 = sz"
        using restored_size_field [OF ih] by simp
      from restored_children_update [OF ih] show ?thesis
        unfolding two sz by simp
    qed
  qed
qed

lemma restored_map_of:
  assumes "list_all2 (\<lambda>(k, c) (k', c'). k' = k \<and> restored c c') cs pre"
  shows "(map_of cs k = None \<longrightarrow> map_of pre k = None)
       \<and> (\<forall>c. map_of cs k = Some c \<longrightarrow> (\<exists>c'. map_of pre k = Some c' \<and> restored c c'))"
  using assms by (induction cs pre rule: list_all2_induct) auto

lemma restored_has_plain: "restored t t' \<Longrightarrow> has_plain t' j = has_plain t j"
proof (induction t j arbitrary: t' rule: has_plain.induct)
  case (1 titem sel cs sz j)
  obtain cs' where t': "t' = SelectionTreeType titem sel cs' sz"
    using "1.prems" by (cases t') simp
  let ?pre = "take (length cs) cs'" and ?ext = "drop (length cs) cs'"
  from "1.prems" t'
  have rel: "list_all2 (\<lambda>(k, c) (k', c'). k' = k \<and> restored c c') cs ?pre"
    and ext: "list_all (\<lambda>(k, c'). allCleared c') ?ext"
    by simp_all
  have split: "map_of cs' k = (map_of ?ext ++ map_of ?pre) k" for k
    by (simp only: map_of_append [symmetric] append_take_drop_id)
  show ?case
  proof (cases "level j = level titem")
    case True
    then show ?thesis by (simp add: t')
  next
    case lv: False
    show ?thesis
    proof (cases "getIdAtLevel j (level titem)")
      case None
      with lv show ?thesis by (simp add: t')
    next
      case gi: (Some i)
      show ?thesis
      proof (cases "map_of cs (keyOf i)")
        case None
        with restored_map_of [OF rel, of "keyOf i"] have "map_of ?pre (keyOf i) = None" by simp
        then have m: "map_of cs' (keyOf i) = map_of ?ext (keyOf i)"
          by (simp add: split map_add_def)
        have "\<not> has_plain t' j"
        proof (cases "map_of ?ext (keyOf i)")
          case None
          with m lv gi show ?thesis by (simp add: t')
        next
          case (Some c')
          then have "(keyOf i, c') \<in> set ?ext" by (rule map_of_SomeD)
          with ext have "allCleared c'" by (auto simp: list_all_iff)
          from allCleared_has_plain [OF this, of j] m Some lv gi show ?thesis
            by (simp add: t' case_prod_beta)
        qed
        with None lv gi show ?thesis by simp
      next
        case (Some c)
        with restored_map_of [OF rel, of "keyOf i"]
        obtain c' where c': "map_of ?pre (keyOf i) = Some c'" "restored c c'" by auto
        then have m: "map_of cs' (keyOf i) = Some c'"
          by (simp add: split map_add_def)
        from "1.IH" [OF lv gi Some c'(2)] m Some lv gi show ?thesis
          by (simp add: t' case_prod_beta)
      qed
    qed
  qed
qed

section \<open>Addresses\<close>

lemma same_key_same_ident:
  "getIdAtLevel a L = Some x \<Longrightarrow> getIdAtLevel b L = Some y \<Longrightarrow> keyOf x = keyOf y \<Longrightarrow> x = y"
  using string_of_nat_not_waypoints string_of_nat_not_waypoints [symmetric]
  by (cases a; cases b; cases L) (auto dest: string_of_nat_inj)




lemma getIdAtLevel_extend:
  "getIdAtLevel it (level a) = Some i \<Longrightarrow> getIdAtLevel (extend a i) (level a) = Some i"
  by (cases it; cases a) auto


section \<open>Trees whose addresses fit\<close>

lemma item_setOrToggle: "item (setOrToggle_plain it val t) = item t"
  by (cases t) (simp add: Let_def split: option.splits)

lemma addressed_new: "addressed (newSelectionTreeType x)"
  by (simp add: newSelectionTreeType_def)

lemma addressed_child:
  assumes "addressed (SelectionTreeType titem sel cs sz)" and "map_of cs k = Some c"
  shows "addressed c"
    and "\<exists>i. getIdAtLevel (item c) (level titem) = Some i \<and> keyOf i = k
             \<and> item c = extend titem i"
proof -
  from assms(2) have "(k, c) \<in> set cs" by (rule map_of_SomeD)
  with assms(1) show "addressed c"
    and "\<exists>i. getIdAtLevel (item c) (level titem) = Some i \<and> keyOf i = k
             \<and> item c = extend titem i"
    by (auto simp: list_all_iff split: option.splits)
qed

lemma addressed_path_child:
  assumes a: "addressed (SelectionTreeType titem sel cs sz)"
    and gi: "getIdAtLevel it (level titem) = Some i"
  shows "addressed (case map_of cs (keyOf i) of
                      None \<Rightarrow> newSelectionTreeType (extend titem i) | Some c \<Rightarrow> c)"
    and "item (case map_of cs (keyOf i) of
                      None \<Rightarrow> newSelectionTreeType (extend titem i) | Some c \<Rightarrow> c)
         = extend titem i"
proof -
  let ?child = "case map_of cs (keyOf i) of
                      None \<Rightarrow> newSelectionTreeType (extend titem i) | Some c \<Rightarrow> c"
  show "addressed ?child"
    using addressed_child(1) [OF a] addressed_new by (cases "map_of cs (keyOf i)") auto
  show "item ?child = extend titem i"
  proof (cases "map_of cs (keyOf i)")
    case None
    then show ?thesis by (simp add: newSelectionTreeType_def)
  next
    case (Some c)
    from addressed_child(2) [OF a Some]
    obtain i' where i': "getIdAtLevel (item c) (level titem) = Some i'" "keyOf i' = keyOf i"
      "item c = extend titem i'" by blast
    from same_key_same_ident [OF i'(1) gi i'(2)] i'(3) Some show ?thesis by simp
  qed
qed

lemma addressed_setOrToggle: "addressed t \<Longrightarrow> addressed (setOrToggle_plain it val t)"
proof (induction it val t rule: setOrToggle_plain.induct)
  case (1 it val titem sel cs sz)
  from "1.prems" have kids: "list_all (\<lambda>(k, c).
        (case getIdAtLevel (item c) (level titem) of
           None \<Rightarrow> False
         | Some i \<Rightarrow> keyOf i = k \<and> item c = extend titem i)
        \<and> addressed c) cs"
    by simp
  show ?case
  proof (cases "level it = level titem")
    case True
    with "1.prems" show ?thesis by (simp add: Let_def)
  next
    case lv: False
    show ?thesis
    proof (cases "getIdAtLevel it (level titem)")
      case None
      with lv "1.prems" show ?thesis by simp
    next
      case gi: (Some i)
      let ?k = "keyOf i"
      let ?child = "case map_of cs ?k of
                      None \<Rightarrow> newSelectionTreeType (extend titem i) | Some c \<Rightarrow> c"
      let ?c1 = "setOrToggle_plain it val ?child"
      have child: "addressed ?child" "item ?child = extend titem i"
        by (rule addressed_path_child [OF "1.prems" gi])+
      have c1: "addressed ?c1" by (rule "1.IH" [OF lv gi refl child(1)])
      have it1: "item ?c1 = extend titem i"
        by (simp only: item_setOrToggle child(2))
      have "list_all (\<lambda>(k, c).
        (case getIdAtLevel (item c) (level titem) of
           None \<Rightarrow> False
         | Some i \<Rightarrow> keyOf i = k \<and> item c = extend titem i)
        \<and> addressed c) (AList.update ?k ?c1 cs)"
        using kids c1 it1 getIdAtLevel_extend [OF gi]
        by (auto simp: list_all_iff dest!: set_update_cases)
      with lv gi show ?thesis
        by (simp add: Let_def)
    qed
  qed
qed


lemma item_clear: "item (clear t) = item t"
  by (cases t) simp

lemma addressed_clear: "addressed t \<Longrightarrow> addressed (clear t)"
proof (induction t rule: clear.induct)
  case (1 titem sel cs sz)
  then show ?case
    by (auto simp: list_all_iff item_clear split: option.splits)
qed

lemma deleteChild_cases:
  "deleteChild i t = (Some TypeError, t) \<or> deleteChild i t = (None, t)
   \<or> (\<exists>c. map_of (children t) (keyOf i) = Some c
          \<and> map_of (children t) ''hasOwnProperty'' = None
          \<and> deleteChild i t
              = (None, SelectionTreeType (item t) (selected t)
                         (AList.delete (keyOf i) (children t))
                         (size_field t - size_field c)))"
proof (cases "map_of (children t) ''hasOwnProperty''")
  case (Some x)
  then show ?thesis by (simp add: deleteChild_def hasOwnProperty_def)
next
  case None
  then show ?thesis
    by (cases "map_of (children t) (keyOf i)") (simp_all add: deleteChild_def hasOwnProperty_def)
qed

lemma item_deleteChild: "item (snd (deleteChild i t)) = item t"
  using deleteChild_cases [of i t] by auto

lemma addressed_delete:
  "addressed (SelectionTreeType titem sel cs sz)
   \<Longrightarrow> addressed (SelectionTreeType titem sel' (AList.delete k cs) sz')"
  by (simp add: list_all_iff AList.delete_eq)

lemma addressed_deleteChild: "addressed t \<Longrightarrow> addressed (snd (deleteChild i t))"
proof -
  assume a: "addressed t"
  obtain titem sel cs sz where t: "t = SelectionTreeType titem sel cs sz" by (cases t)
  from deleteChild_cases [of i t] a show ?thesis
    unfolding t using addressed_delete [of titem sel cs sz] by auto
qed

lemma level_extend:
  "getIdAtLevel it (level a) = Some i \<Longrightarrow> level (extend a i) \<noteq> ROOT"
  by (cases it; cases a) auto

lemma addressed_mem:
  assumes "addressed (SelectionTreeType titem sel cs sz)" and "(k, c) \<in> set cs"
  shows "addressed c \<and> (\<exists>i. getIdAtLevel (item c) (level titem) = Some i \<and> keyOf i = k
             \<and> item c = extend titem i)"
  using assms by (auto simp: list_all_iff split: option.splits)

lemma addressed_plainTree: "addressed t \<Longrightarrow> level (item t) \<noteq> ROOT \<Longrightarrow> plainTree t"
proof (induction t rule: clear.induct)
  case (1 titem sel cs sz)
  from "1.prems"(2) have nr: "level titem \<noteq> ROOT" by simp
  have "k \<noteq> ''hasOwnProperty'' \<and> plainTree c" if mem: "(k, c) \<in> set cs" for k c
  proof -
    from addressed_mem [OF "1.prems"(1) mem]
    obtain i where i: "getIdAtLevel (item c) (level titem) = Some i" "keyOf i = k"
      "item c = extend titem i" and ac: "addressed c"
      by blast
    from key_below_root [OF i(1) nr] i(2) have "k \<noteq> ''hasOwnProperty''" by blast
    moreover have "level (item c) \<noteq> ROOT"
      unfolding i(3) by (rule level_extend [OF i(1)])
    from "1.IH" [OF mem refl ac this] have "plainTree c" .
    ultimately show ?thesis ..
  qed
  then have kids: "\<forall>(k, c) \<in> set cs. k \<noteq> ''hasOwnProperty'' \<and> plainTree c"
    by blast
  have "map_of cs ''hasOwnProperty'' = None"
  proof (cases "map_of cs ''hasOwnProperty''")
    case None
    then show ?thesis .
  next
    case (Some c)
    then have "(''hasOwnProperty'', c) \<in> set cs" by (rule map_of_SomeD)
    with kids show ?thesis by blast
  qed
  moreover from kids have "list_all (\<lambda>(k, c). plainTree c) cs"
    unfolding list_all_iff by blast
  ultimately show ?case by simp
qed

section \<open>When the methods agree with the auxiliary functions\<close>

lemma plainTree_setOrToggle_plain:
  "plainTree t \<Longrightarrow> getFileId it \<noteq> Some ''hasOwnProperty''
   \<Longrightarrow> plainTree (setOrToggle_plain it val t)"
proof (induction it val t rule: setOrToggle_plain.induct)
  case (1 it val titem sel cs sz)
  from "1.prems" have pl: "map_of cs ''hasOwnProperty'' = None"
    and kids: "list_all (\<lambda>(k, c). plainTree c) cs" by simp_all
  show ?case
  proof (cases "level it = level titem")
    case True
    with "1.prems" show ?thesis by (simp add: Let_def)
  next
    case lv: False
    show ?thesis
    proof (cases "getIdAtLevel it (level titem)")
      case None
      with lv "1.prems" show ?thesis by simp
    next
      case gi: (Some i)
      let ?child = "case map_of cs (keyOf i) of
                      None \<Rightarrow> newSelectionTreeType (extend titem i) | Some c \<Rightarrow> c"
      have key: "keyOf i \<noteq> ''hasOwnProperty''"
        by (rule key_not_hasOwnProperty [OF gi "1.prems"(2)])
      have pc: "plainTree ?child" by (rule plainTree_path_child [OF "1.prems"(1)])
      have c1: "plainTree (setOrToggle_plain it val ?child)"
        by (rule "1.IH" [OF lv gi refl pc "1.prems"(2)])
      have "list_all (\<lambda>(k, c). plainTree c)
              (AList.update (keyOf i) (setOrToggle_plain it val ?child) cs)"
        using kids c1 by (auto simp: list_all_iff dest!: set_update_cases)
      moreover have "map_of (AList.update (keyOf i) (setOrToggle_plain it val ?child) cs)
                       ''hasOwnProperty'' = None"
        using pl key by (simp add: update_conv)
      ultimately show ?thesis using lv gi by (simp add: Let_def)
    qed
  qed
qed

lemma setOrToggle_plain_eq:
  "plainTree t \<Longrightarrow> ordinaryItem it \<or> addressed t \<and> level (item t) \<noteq> ROOT
   \<Longrightarrow> setOrToggle it val t = (None, setOrToggle_plain it val t)"
proof (induction it val t rule: setOrToggle.induct)
  case (1 it val titem sel cs sz)
  from "1.prems"(1) have pl: "map_of cs ''hasOwnProperty'' = None" by simp
  show ?case
  proof (cases "level it = level titem")
    case True
    then show ?thesis by (simp add: Let_def)
  next
    case lv: False
    show ?thesis
    proof (cases "getIdAtLevel it (level titem)")
      case None
      with lv show ?thesis by simp
    next
      case gi: (Some i)
      let ?present = "map_of cs (keyOf i) \<noteq> None"
      let ?child = "case map_of cs (keyOf i) of
                      None \<Rightarrow> newSelectionTreeType (extend titem i) | Some c \<Rightarrow> c"
      have hop: "hasOwnProperty cs i = Inr ?present"
        by (rule hasOwnProperty_plain [OF pl])
      have key: "keyOf i \<noteq> ''__proto__''"
        using "1.prems"(2) key_not_proto [OF gi] key_below_root [OF gi]
        by (auto simp: ordinaryItem_def)
      have pc: "plainTree ?child" by (rule plainTree_path_child [OF "1.prems"(1)])
      have side: "ordinaryItem it \<or> addressed ?child \<and> level (item ?child) \<noteq> ROOT"
      proof (cases "ordinaryItem it")
        case True
        then show ?thesis ..
      next
        case False
        with "1.prems"(2) have a: "addressed (SelectionTreeType titem sel cs sz)" by simp
        from addressed_path_child [OF a gi] level_extend [OF gi]
        show ?thesis by simp
      qed
      have "setOrToggle it val ?child = (None, setOrToggle_plain it val ?child)"
        by (rule "1.IH" [OF lv gi hop refl refl pc side])
      with lv gi hop key show ?thesis
        by (simp add: Let_def)
    qed
  qed
qed

lemma setOrToggle_top_throws:
  "map_of cs ''hasOwnProperty'' \<noteq> None \<Longrightarrow> level it \<noteq> level titem
   \<Longrightarrow> getIdAtLevel it (level titem) = Some i
   \<Longrightarrow> setOrToggle it val (SelectionTreeType titem sel cs sz)
       = (Some TypeError, SelectionTreeType titem sel cs sz)"
  by (simp add: hasOwnProperty_def)

lemma toggle_twice_top:
  "map_of cs ''hasOwnProperty'' \<noteq> None
   \<Longrightarrow> snd (setOrToggle it None (snd (setOrToggle it None (SelectionTreeType titem sel cs sz))))
       = SelectionTreeType titem sel cs sz"
proof (cases "level it = level titem")
  case True
  then show ?thesis by (simp add: Let_def)
next
  case lv: False
  assume h: "map_of cs ''hasOwnProperty'' \<noteq> None"
  show ?thesis
  proof (cases "getIdAtLevel it (level titem)")
    case None
    with lv show ?thesis by simp
  next
    case (Some i)
    from setOrToggle_top_throws [OF h lv Some] show ?thesis by simp
  qed
qed


text \<open>
  C6. As the claim states it, two calls of \<open>toggle(item)\<close> restore the tree for every
  item. On the initial tree, \<open>toggle(FileItem hasOwnProperty)\<close> selects the file, and
  the second call throws a TypeError at the call \<open>this.children.hasOwnProperty(id)\<close>:
  the file stays selected and the root keeps size 1. With the file \<open>__proto__\<close> each of
  the two calls makes a new node the prototype of \<open>children\<close> and selects it, and the
  root, of size 0 before, has size 2 after them.
\<close>

theorem toggle_twice_counterexample:
  "toggle (ListFileItem ''hasOwnProperty'') initialSelection
   = (None, SelectionTreeType ListRootItem False
        [(''hasOwnProperty'', SelectionTreeType (ListFileItem ''hasOwnProperty'') True [] 1)] 1)
   \<and> toggle (ListFileItem ''hasOwnProperty'') (SelectionTreeType ListRootItem False
        [(''hasOwnProperty'', SelectionTreeType (ListFileItem ''hasOwnProperty'') True [] 1)] 1)
   = (Some TypeError, SelectionTreeType ListRootItem False
        [(''hasOwnProperty'', SelectionTreeType (ListFileItem ''hasOwnProperty'') True [] 1)] 1)
   \<and> \<not> restored initialSelection (SelectionTreeType ListRootItem False
        [(''hasOwnProperty'', SelectionTreeType (ListFileItem ''hasOwnProperty'') True [] 1)] 1)
   \<and> toggle (ListFileItem ''__proto__'') initialSelection
   = (Some PrototypeReplaced, SelectionTreeType ListRootItem False [] 1)
   \<and> toggle (ListFileItem ''__proto__'') (SelectionTreeType ListRootItem False [] 1)
   = (Some PrototypeReplaced, SelectionTreeType ListRootItem False [] 2)
   \<and> \<not> restored initialSelection (SelectionTreeType ListRootItem False [] 2)"
  by (simp add: toggle_def initialSelection_def newSelectionTreeType_def hasOwnProperty_def)

text \<open>
  C6, amended. Let the file identifier of \<open>item\<close> be neither \<open>hasOwnProperty\<close> nor
  \<open>__proto__\<close>, and let no dictionary below the root have an own property named
  \<open>hasOwnProperty\<close> (the keys below the root are decimal numerals and \<open>waypoints\<close>).
  After \<open>toggle(item)\<close> called twice in succession, every node the tree had before has
  the flag \<open>selected\<close> and the \<open>size\<close> it had before; a node created by the first call is
  left unselected with size 0; and \<open>has\<close> answers for every item what it answered
  before. When the dictionary of the root has no own property named \<open>hasOwnProperty\<close>
  either, both calls return.
\<close>

theorem toggle_twice_restores:
  "ordinaryItem it \<Longrightarrow> list_all (\<lambda>(k, c). plainTree c) (children t) \<Longrightarrow>
     restored t (snd (toggle it (snd (toggle it t))))
     \<and> fst (has (snd (toggle it (snd (toggle it t)))) j) = fst (has t j)
     \<and> (map_of (children t) ''hasOwnProperty'' = None \<longrightarrow>
          fst (toggle it t) = None \<and> fst (toggle it (snd (toggle it t))) = None)"
proof -
  assume oi: "ordinaryItem it" and below: "list_all (\<lambda>(k, c). plainTree c) (children t)"
  obtain titem sel cs sz where t: "t = SelectionTreeType titem sel cs sz" by (cases t)
  show ?thesis
  proof (cases "map_of (children t) ''hasOwnProperty'' = None")
    case True
    with below t have p: "plainTree t" by simp
    let ?t1 = "setOrToggle_plain it None t"
    let ?t2 = "setOrToggle_plain it None ?t1"
    from oi have nh: "getFileId it \<noteq> Some ''hasOwnProperty''" by (simp add: ordinaryItem_def)
    have p1: "plainTree ?t1" by (rule plainTree_setOrToggle_plain [OF p nh])
    have p2: "plainTree ?t2" by (rule plainTree_setOrToggle_plain [OF p1 nh])
    have e1: "toggle it t = (None, ?t1)"
      unfolding toggle_def by (rule setOrToggle_plain_eq [OF p]) (simp add: oi)
    have e2: "toggle it ?t1 = (None, ?t2)"
      unfolding toggle_def by (rule setOrToggle_plain_eq [OF p1]) (simp add: oi)
    have r: "restored t ?t2" by (rule setOrToggle_plain_twice)
    have "fst (has ?t2 j) = fst (has t j)"
      using has_plain_eq [OF p2, of j] has_plain_eq [OF p, of j] restored_has_plain [OF r, of j]
      by simp
    with r e1 e2 show ?thesis by simp
  next
    case False
    with t have h: "map_of cs ''hasOwnProperty'' \<noteq> None" by simp
    have eq: "snd (toggle it (snd (toggle it t))) = t"
      unfolding toggle_def t by (rule toggle_twice_top [OF h])
    show ?thesis
      unfolding eq using False by (auto simp: restored_refl)
  qed
qed

theorem toggle_twice_restores_witness:
  "ordinaryItem (ListTrackItem ''f1'' 0)
   \<and> list_all (\<lambda>(k, c). plainTree c) (children (SelectionTreeType ListRootItem False
        [(''f1'', SelectionTreeType (ListFileItem ''f1'') True [] 1)] 1))
   \<and> map_of (children (SelectionTreeType ListRootItem False
        [(''f1'', SelectionTreeType (ListFileItem ''f1'') True [] 1)] 1)) ''hasOwnProperty''
     = None
   \<and> toggle (ListTrackItem ''f1'' 0)
     (SelectionTreeType ListRootItem False
        [(''f1'', SelectionTreeType (ListFileItem ''f1'') True [] 1)] 1)
   = (None, SelectionTreeType ListRootItem False
        [(''f1'', SelectionTreeType (ListFileItem ''f1'') True
           [(''0'', SelectionTreeType (ListTrackItem ''f1'' 0) True [] 1)] 2)] 2)
   \<and> toggle (ListTrackItem ''f1'' 0)
     (SelectionTreeType ListRootItem False
        [(''f1'', SelectionTreeType (ListFileItem ''f1'') True
           [(''0'', SelectionTreeType (ListTrackItem ''f1'' 0) True [] 1)] 2)] 2)
   = (None, SelectionTreeType ListRootItem False
        [(''f1'', SelectionTreeType (ListFileItem ''f1'') True
           [(''0'', SelectionTreeType (ListTrackItem ''f1'' 0) False [] 0)] 1)] 1)
   \<and> restored
     (SelectionTreeType ListRootItem False
        [(''f1'', SelectionTreeType (ListFileItem ''f1'') True [] 1)] 1)
     (SelectionTreeType ListRootItem False
        [(''f1'', SelectionTreeType (ListFileItem ''f1'') True
           [(''0'', SelectionTreeType (ListTrackItem ''f1'' 0) False [] 0)] 1)] 1)
   \<and> fst (has (SelectionTreeType ListRootItem False
        [(''f1'', SelectionTreeType (ListFileItem ''f1'') True
           [(''0'', SelectionTreeType (ListTrackItem ''f1'' 0) False [] 0)] 1)] 1)
        (ListFileItem ''f1''))
     = fst (has (SelectionTreeType ListRootItem False
        [(''f1'', SelectionTreeType (ListFileItem ''f1'') True [] 1)] 1)
        (ListFileItem ''f1''))"
proof -
  let ?t = "SelectionTreeType ListRootItem False
        [(''f1'', SelectionTreeType (ListFileItem ''f1'') True [] 1)] 1"
  let ?t1 = "SelectionTreeType ListRootItem False
        [(''f1'', SelectionTreeType (ListFileItem ''f1'') True
           [(''0'', SelectionTreeType (ListTrackItem ''f1'' 0) True [] 1)] 2)] 2"
  let ?t2 = "SelectionTreeType ListRootItem False
        [(''f1'', SelectionTreeType (ListFileItem ''f1'') True
           [(''0'', SelectionTreeType (ListTrackItem ''f1'' 0) False [] 0)] 1)] 1"
  let ?it = "ListTrackItem ''f1'' 0"
  have o: "ordinaryItem ?it" by (simp add: ordinaryItem_def)
  have b: "list_all (\<lambda>(k, c). plainTree c) (children ?t)" by simp
  have n: "map_of (children ?t) ''hasOwnProperty'' = None" by simp
  have e1: "toggle ?it ?t = (None, ?t1)"
    by (simp add: toggle_def Let_def newSelectionTreeType_def hasOwnProperty_def
        string_of_nat.simps digit_char_def)
  have e2: "toggle ?it ?t1 = (None, ?t2)"
    by (simp add: toggle_def Let_def newSelectionTreeType_def hasOwnProperty_def
        string_of_nat.simps digit_char_def)
  note w = toggle_twice_restores [OF o b, of "ListFileItem ''f1''", unfolded e1 snd_conv e2]
  have r: "restored ?t ?t2" by (rule w [THEN conjunct1])
  have h: "fst (has ?t2 (ListFileItem ''f1'')) = fst (has ?t (ListFileItem ''f1''))"
    by (rule w [THEN conjunct2, THEN conjunct1])
  show ?thesis
    apply (intro conjI)
    apply (rule o)
    apply (rule b)
    apply (rule n)
    apply (rule e1)
    apply (rule e2)
    apply (rule r)
    apply (rule h)
    done
qed

section \<open>The cached sizes\<close>

lemmas run_simps =
  forIn_def arrayIndex_def parse_nat_def digit_val_def indexRank_def string_of_nat.simps
  digit_char_def Let_def newSelectionTreeType_def set_item_def toggle_def
  initialSelection_def hasOwnProperty_def

lemma sum_update:
  "(\<Sum>(k', c)\<leftarrow>AList.update k v cs. f c) + (case map_of cs k of None \<Rightarrow> 0 | Some c \<Rightarrow> f c)
   = (\<Sum>(k', c)\<leftarrow>cs. f c) + (f v :: nat)"
  by (induction cs) auto

lemma sum_delete:
  "distinct (map fst cs) \<Longrightarrow> map_of cs k = Some c \<Longrightarrow>
     (\<Sum>(k', c)\<leftarrow>AList.delete k cs. f c) + f c = (\<Sum>(k', c)\<leftarrow>cs. (f c :: nat))"
proof (induction cs)
  case Nil
  then show ?case by simp
next
  case (Cons p cs)
  obtain k' c' where p: "p = (k', c')" by (cases p)
  show ?case
  proof (cases "k' = k")
    case True
    with Cons.prems p have "c' = c" and "k \<notin> fst ` set cs" by auto
    then have "AList.delete k cs = cs"
      by (simp add: delete_id)
    with True p \<open>c' = c\<close> show ?thesis by simp
  next
    case False
    with Cons p show ?thesis by simp
  qed
qed

lemma sum_forIn: "(\<Sum>p\<leftarrow>forIn cs. (g p :: nat)) = (\<Sum>p\<leftarrow>cs. g p)"
proof -
  have "(\<Sum>p\<leftarrow>forIn cs. g p) = sum_mset (image_mset g (mset (forIn cs)))"
    by (simp only: sum_mset_sum_list [symmetric] mset_map)
  also have "\<dots> = sum_mset (image_mset g (mset cs))"
    by (simp only: mset_forIn)
  also have "\<dots> = (\<Sum>p\<leftarrow>cs. g p)"
    by (simp only: sum_mset_sum_list [symmetric] mset_map)
  finally show ?thesis .
qed

lemma length_getSelected: "length (getSelected t []) = countSelected t"
proof (induction t rule: clear.induct)
  case (1 titem sel cs sz)
  have "(\<Sum>p\<leftarrow>forIn cs. length (getSelected (snd p) []))
        = (\<Sum>p\<leftarrow>cs. length (getSelected (snd p) []))"
    by (rule sum_forIn)
  also have "\<dots> = (\<Sum>p\<leftarrow>cs. countSelected (snd p))"
    by (rule arg_cong [where f = sum_list], rule map_cong [OF refl])
      (use "1.IH" in \<open>auto simp: prod_eq_iff\<close>)
  finally show ?case
    by (simp add: getSelected_Node length_concat case_prod_unfold comp_def
        del: getSelected.simps)
qed

lemma sizeCorrect_size: "sizeCorrect t \<Longrightarrow> size_field t = int (countSelected t)"
  by (cases t) simp

lemma sizeCorrect_new: "sizeCorrect (newSelectionTreeType x)"
  by (simp add: newSelectionTreeType_def)

lemma sizeCorrect_child:
  "sizeCorrect (SelectionTreeType titem sel cs sz) \<Longrightarrow> map_of cs k = Some c \<Longrightarrow> sizeCorrect c"
  by (auto simp: list_all_iff dest!: map_of_SomeD)

lemma sizeCorrect_setOrToggle: "sizeCorrect t \<Longrightarrow> sizeCorrect (setOrToggle_plain it val t)"
proof (induction it val t rule: setOrToggle_plain.induct)
  case (1 it val titem sel cs sz)
  from "1.prems" have sz: "sz = int (countSelected (SelectionTreeType titem sel cs sz))"
    and kids: "list_all (\<lambda>(k, c). sizeCorrect c) cs"
    by simp_all
  show ?case
  proof (cases "level it = level titem")
    case True
    with "1.prems" show ?thesis by (simp add: Let_def)
  next
    case lv: False
    show ?thesis
    proof (cases "getIdAtLevel it (level titem)")
      case None
      with lv "1.prems" show ?thesis by simp
    next
      case gi: (Some i)
      let ?k = "keyOf i"
      let ?child = "case map_of cs ?k of
                      None \<Rightarrow> newSelectionTreeType (extend titem i) | Some c \<Rightarrow> c"
      let ?c1 = "setOrToggle_plain it val ?child"
      have child: "sizeCorrect ?child"
        using sizeCorrect_child [OF "1.prems"] sizeCorrect_new
        by (cases "map_of cs ?k") auto
      have c1: "sizeCorrect ?c1" by (rule "1.IH" [OF lv gi refl child])
      have old: "(case map_of cs ?k of None \<Rightarrow> 0 | Some c \<Rightarrow> countSelected c) = countSelected ?child"
        by (cases "map_of cs ?k") (simp_all add: newSelectionTreeType_def)
      from sum_update [where k = ?k and v = ?c1 and cs = cs and f = countSelected]
      have sum: "(\<Sum>(k', c)\<leftarrow>AList.update ?k ?c1 cs. countSelected c) + countSelected ?child
                 = (\<Sum>(k', c)\<leftarrow>cs. countSelected c) + countSelected ?c1"
        by (simp only: old)
      have kids': "list_all (\<lambda>(k, c). sizeCorrect c) (AList.update ?k ?c1 cs)"
        using kids c1 by (auto simp: list_all_iff dest!: set_update_cases)
      have "sz - size_field ?child + size_field ?c1
            = int ((if sel then 1 else 0) + (\<Sum>(k', c)\<leftarrow>AList.update ?k ?c1 cs. countSelected c))"
        using sum sz sizeCorrect_size [OF child] sizeCorrect_size [OF c1] by simp
      with kids' lv gi show ?thesis
        by (simp add: Let_def)
    qed
  qed
qed

lemma uniqueKeys_new: "uniqueKeys (newSelectionTreeType x)"
  by (simp add: newSelectionTreeType_def)

lemma uniqueKeys_setOrToggle: "uniqueKeys t \<Longrightarrow> uniqueKeys (setOrToggle_plain it val t)"
proof (induction it val t rule: setOrToggle_plain.induct)
  case (1 it val titem sel cs sz)
  from "1.prems" have dist: "distinct (map fst cs)"
    and kids: "list_all (\<lambda>(k, c). uniqueKeys c) cs"
    by simp_all
  show ?case
  proof (cases "level it = level titem")
    case True
    with "1.prems" show ?thesis by (simp add: Let_def)
  next
    case lv: False
    show ?thesis
    proof (cases "getIdAtLevel it (level titem)")
      case None
      with lv "1.prems" show ?thesis by simp
    next
      case gi: (Some i)
      let ?k = "keyOf i"
      let ?child = "case map_of cs ?k of
                      None \<Rightarrow> newSelectionTreeType (extend titem i) | Some c \<Rightarrow> c"
      let ?c1 = "setOrToggle_plain it val ?child"
      have child: "uniqueKeys ?child"
        using kids uniqueKeys_new
        by (cases "map_of cs ?k") (auto simp: list_all_iff dest!: map_of_SomeD)
      have c1: "uniqueKeys ?c1" by (rule "1.IH" [OF lv gi refl child])
      have kids': "list_all (\<lambda>(k, c). uniqueKeys c) (AList.update ?k ?c1 cs)"
        using kids c1 by (auto simp: list_all_iff dest!: set_update_cases)
      with dist lv gi show ?thesis
        by (simp add: Let_def distinct_update)
    qed
  qed
qed

lemma allCleared_count: "allCleared t \<Longrightarrow> countSelected t = 0 \<and> sizeCorrect t"
proof (induction t rule: clear.induct)
  case (1 titem sel cs sz)
  have each: "countSelected c = 0 \<and> sizeCorrect c" if "(k, c) \<in> set cs" for k c
    using "1.IH" [OF that refl] "1.prems" that by (auto simp: list_all_iff)
  then have "(\<Sum>(k, c)\<leftarrow>cs. countSelected c) = 0"
    by (induction cs) auto
  with each "1.prems" show ?case
    by (auto simp: list_all_iff)
qed

lemma uniqueKeys_clear: "uniqueKeys t \<Longrightarrow> uniqueKeys (clear t)"
proof (induction t rule: clear.induct)
  case (1 titem sel cs sz)
  have keys: "map fst (map (\<lambda>(k, c). (k, clear c)) cs) = map fst cs"
    by (induction cs) auto
  from "1.prems" have "distinct (map fst cs)" by simp
  then have d: "distinct (map fst (map (\<lambda>(k, c). (k, clear c)) cs))"
    by (simp only: keys)
  have l: "list_all (\<lambda>(k, c). uniqueKeys c) (map (\<lambda>(k, c). (k, clear c)) cs)"
    using "1.prems" "1.IH" by (auto simp: list_all_iff)
  from d l show ?case by simp
qed

lemma sizeCorrect_deleteChild:
  assumes "sizeCorrect t" and "uniqueKeys t"
  shows "sizeCorrect (snd (deleteChild i t))"
proof -
  obtain titem sel cs sz where t: "t = SelectionTreeType titem sel cs sz" by (cases t)
  from deleteChild_cases [of i t]
  consider "snd (deleteChild i t) = t"
    | c where "map_of cs (keyOf i) = Some c"
        "snd (deleteChild i t)
         = SelectionTreeType titem sel (AList.delete (keyOf i) cs) (sz - size_field c)"
    unfolding t by auto
  then show ?thesis
  proof cases
    case 1
    with assms show ?thesis by simp
  next
    case (2 c)
    from assms t have dist: "distinct (map fst cs)"
      and sz: "sz = int ((if sel then 1 else 0) + (\<Sum>(k, c)\<leftarrow>cs. countSelected c))"
      and kids: "list_all (\<lambda>(k, c). sizeCorrect c) cs"
      by simp_all
    from 2(1) kids have c: "size_field c = int (countSelected c)"
      by (auto simp: list_all_iff sizeCorrect_size dest!: map_of_SomeD)
    from sum_delete [OF dist 2(1), where f = countSelected] sz c
    have "sz - size_field c
          = int ((if sel then 1 else 0) + (\<Sum>(k, c)\<leftarrow>AList.delete (keyOf i) cs. countSelected c))"
      by simp
    moreover have "list_all (\<lambda>(k, c). sizeCorrect c) (AList.delete (keyOf i) cs)"
      using kids by (auto simp: list_all_iff AList.delete_eq)
    ultimately show ?thesis
      unfolding 2(2) by simp
  qed
qed

lemma uniqueKeys_deleteChild: "uniqueKeys t \<Longrightarrow> uniqueKeys (snd (deleteChild i t))"
proof -
  assume u: "uniqueKeys t"
  obtain titem sel cs sz where t: "t = SelectionTreeType titem sel cs sz" by (cases t)
  from u t have "distinct (map fst (AList.delete (keyOf i) cs))"
    by (simp add: distinct_delete)
  moreover have "list_all (\<lambda>(k, c). uniqueKeys c) (AList.delete (keyOf i) cs)"
    using u t by (auto simp: list_all_iff AList.delete_eq)
  ultimately have "uniqueKeys (SelectionTreeType titem sel (AList.delete (keyOf i) cs) sz')" for sz'
    by simp
  with deleteChild_cases [of i t] u show ?thesis
    unfolding t by auto
qed

section \<open>The trees of the store\<close>

lemma setOrToggle_store:
  assumes a: "addressed t" and np: "getFileId it \<noteq> Some ''__proto__''"
  shows "setOrToggle it val t = (Some TypeError, t)
         \<or> setOrToggle it val t = (None, setOrToggle_plain it val t)"
proof -
  obtain titem sel cs sz where t: "t = SelectionTreeType titem sel cs sz" by (cases t)
  show ?thesis
  proof (cases "level it = level titem")
    case True
    then show ?thesis by (simp add: t Let_def)
  next
    case lv: False
    show ?thesis
    proof (cases "getIdAtLevel it (level titem)")
      case None
      with lv show ?thesis by (simp add: t)
    next
      case gi: (Some i)
      show ?thesis
      proof (cases "map_of cs ''hasOwnProperty''")
        case (Some x)
        then have "map_of cs ''hasOwnProperty'' \<noteq> None" by simp
        from setOrToggle_top_throws [OF this lv gi] show ?thesis by (simp add: t)
      next
        case pl: None
        let ?present = "map_of cs (keyOf i) \<noteq> None"
        let ?child = "case map_of cs (keyOf i) of
                        None \<Rightarrow> newSelectionTreeType (extend titem i) | Some c \<Rightarrow> c"
        have hop: "hasOwnProperty cs i = Inr ?present"
          by (rule hasOwnProperty_plain [OF pl])
        have key: "keyOf i \<noteq> ''__proto__''" by (rule key_not_proto [OF gi np])
        from a t have a': "addressed (SelectionTreeType titem sel cs sz)" by simp
        have ac: "addressed ?child" and ic: "item ?child = extend titem i"
          by (rule addressed_path_child [OF a' gi])+
        have lc: "level (item ?child) \<noteq> ROOT"
          unfolding ic by (rule level_extend [OF gi])
        have pc: "plainTree ?child" by (rule addressed_plainTree [OF ac lc])
        have "setOrToggle it val ?child = (None, setOrToggle_plain it val ?child)"
          by (rule setOrToggle_plain_eq [OF pc]) (simp add: ac lc)
        with lv gi hop key have "setOrToggle it val t = (None, setOrToggle_plain it val t)"
          by (simp add: t Let_def)
        then show ?thesis ..
      qed
    qed
  qed
qed

lemma reachable_invariant:
  "reachable t \<Longrightarrow> addressed t \<and> item t = ListRootItem \<and> sizeCorrect t \<and> uniqueKeys t"
proof (induction rule: reachable.induct)
  case initial
  show ?case
    by (simp add: initialSelection_def newSelectionTreeType_def)
next
  case (by_set t it v)
  then have a: "addressed t" by simp
  from setOrToggle_store [OF a by_set.hyps(2), of "Some v"]
  have "snd (set_item it v t) = t \<or> snd (set_item it v t) = setOrToggle_plain it (Some v) t"
    unfolding set_item_def by auto
  with by_set.IH show ?case
    by (auto simp: addressed_setOrToggle item_setOrToggle sizeCorrect_setOrToggle
        uniqueKeys_setOrToggle)
next
  case (by_toggle t it)
  then have a: "addressed t" by simp
  from setOrToggle_store [OF a by_toggle.hyps(2), of None]
  have "snd (toggle it t) = t \<or> snd (toggle it t) = setOrToggle_plain it None t"
    unfolding toggle_def by auto
  with by_toggle.IH show ?case
    by (auto simp: addressed_setOrToggle item_setOrToggle sizeCorrect_setOrToggle
        uniqueKeys_setOrToggle)
next
  case (by_deleteChild t i)
  then show ?case
    by (simp add: sizeCorrect_deleteChild uniqueKeys_deleteChild addressed_deleteChild
        item_deleteChild)
next
  case (by_clear t)
  then show ?case
    using allCleared_count [OF allCleared_clear, of t]
    by (simp add: uniqueKeys_clear addressed_clear item_clear)
qed

text \<open>
  C1. As the claim states it, the sizes are right after any sequence of \<open>set\<close>,
  \<open>toggle\<close>, \<open>deleteChild\<close> and \<open>clear\<close>. On the initial tree,
  \<open>set(FileItem __proto__, true)\<close> makes the new node the prototype of \<open>children\<close>:
  the root has size 1 afterwards, and no child and no selected node. And after
  \<open>set(TrackItem f1 0, true)\<close> on the initial tree, \<open>deleteChild(0)\<close> called on the node
  of the file \<open>f1\<close>, the child \<open>getChild(f1)\<close> of the root, removes the selected track
  and lowers the size of the file node to 0, while the root keeps size 1 with no
  selected node below it.
\<close>

theorem size_stale_counterexample:
  "set_item (ListFileItem ''__proto__'') True initialSelection
   = (Some PrototypeReplaced, SelectionTreeType ListRootItem False [] 1)
   \<and> \<not> sizeCorrect (SelectionTreeType ListRootItem False [] 1)
   \<and> set_item (ListTrackItem ''f1'' 0) True initialSelection
   = (None, SelectionTreeType ListRootItem False
        [(''f1'', SelectionTreeType (ListFileItem ''f1'') False
           [(''0'', SelectionTreeType (ListTrackItem ''f1'' 0) True [] 1)] 1)] 1)
   \<and> deleteChild (IdNum 0) (SelectionTreeType (ListFileItem ''f1'') False
           [(''0'', SelectionTreeType (ListTrackItem ''f1'' 0) True [] 1)] 1)
   = (None, SelectionTreeType (ListFileItem ''f1'') False [] 0)
   \<and> \<not> sizeCorrect (SelectionTreeType ListRootItem False
        [(''f1'', SelectionTreeType (ListFileItem ''f1'') False [] 0)] 1)"
  by (simp add: run_simps deleteChild_def AList.delete_eq)

text \<open>
  C1, amended. In every tree that \<open>set\<close>, \<open>toggle\<close>, \<open>deleteChild\<close> and \<open>clear\<close>, called
  on the root with items whose file identifier is not \<open>__proto__\<close>, leave of the initial
  tree, whether the calls return or throw, the field \<open>size\<close> of every node is the number
  of selected nodes in the subtree of that node, the node included; the \<open>size\<close> of the
  root is the length of \<open>getSelected()\<close>.
\<close>

theorem size_counts_selected_nodes:
  "reachable t \<Longrightarrow> sizeCorrect t \<and> size_field t = int (length (getSelected t []))"
  using reachable_invariant [of t]
  by (simp add: length_getSelected sizeCorrect_size)

theorem size_counts_selected_nodes_witness:
  "reachable (SelectionTreeType ListRootItem False
        [(''f1'', SelectionTreeType (ListFileItem ''f1'') False
           [(''0'', SelectionTreeType (ListTrackItem ''f1'' 0) True [] 1)] 1),
         (''hasOwnProperty'', SelectionTreeType (ListFileItem ''hasOwnProperty'') True [] 1)] 2)
   \<and> sizeCorrect (SelectionTreeType ListRootItem False
        [(''f1'', SelectionTreeType (ListFileItem ''f1'') False
           [(''0'', SelectionTreeType (ListTrackItem ''f1'' 0) True [] 1)] 1),
         (''hasOwnProperty'', SelectionTreeType (ListFileItem ''hasOwnProperty'') True [] 1)] 2)
   \<and> getSelected (SelectionTreeType ListRootItem False
        [(''f1'', SelectionTreeType (ListFileItem ''f1'') False
           [(''0'', SelectionTreeType (ListTrackItem ''f1'' 0) True [] 1)] 1),
         (''hasOwnProperty'', SelectionTreeType (ListFileItem ''hasOwnProperty'') True [] 1)] 2) []
     = [ListTrackItem ''f1'' 0, ListFileItem ''hasOwnProperty'']"
proof -
  let ?t = "SelectionTreeType ListRootItem False
        [(''f1'', SelectionTreeType (ListFileItem ''f1'') False
           [(''0'', SelectionTreeType (ListTrackItem ''f1'' 0) True [] 1)] 1),
         (''hasOwnProperty'', SelectionTreeType (ListFileItem ''hasOwnProperty'') True [] 1)] 2"
  have e: "snd (set_item (ListFileItem ''f2'') True
             (snd (toggle (ListFileItem ''hasOwnProperty'')
               (snd (set_item (ListTrackItem ''f1'' 0) True initialSelection))))) = ?t"
    by (simp add: run_simps)
  have "reachable (snd (set_item (ListFileItem ''f2'') True
             (snd (toggle (ListFileItem ''hasOwnProperty'')
               (snd (set_item (ListTrackItem ''f1'' 0) True initialSelection))))))"
    by (intro reachable.intros) simp_all
  then have r: "reachable ?t" by (simp only: e)
  have g: "getSelected ?t [] = [ListTrackItem ''f1'' 0, ListFileItem ''hasOwnProperty'']"
    by (simp add: run_simps)
  from size_counts_selected_nodes [OF r] have "sizeCorrect ?t" by blast
  with r g show ?thesis by blast
qed

section \<open>Setting and asking\<close>








section \<open>Selected items file by file\<close>











section \<open>Setting one item and asking for another\<close>









section \<open>The selected items and the answers of has\<close>















section \<open>Select all\<close>























end
